theory Spec2Isabelle
  imports Complex_Main "HOL-Library.AList"
begin

section \<open>Conventions of the embedding\<close>

text \<open>
  The semantic search engine is written in Python. Its data are embedded as follows.
  \<^item> A Python \<open>str\<close> is a \<open>string\<close>; the development covers ASCII text, where
    \<open>str.lower\<close> maps \<open>A\<close>..\<open>Z\<close> to \<open>a\<close>..\<open>z\<close> and the white space of
    \<open>str.split\<close> and \<open>str.strip\<close> is the ten ASCII white-space characters.
  \<^item> A Python \<open>float\<close> is a \<open>real\<close>: rounding is not modelled, sums, products,
    quotients and the logarithm are the exact ones.
  \<^item> A Python \<open>dict\<close> is an association list with pairwise distinct keys in insertion
    order; \<open>d[k] = v\<close> is \<open>AList.update\<close>, which overwrites in place or appends.
  \<^item> A Python \<open>set\<close> that the code iterates over is a duplicate-free list. Python does
    not specify the order of that iteration; the properties below that depend on a graph
    are proved for every graph satisfying the invariant \<open>graph_inv\<close>, hence for every
    order.
  \<^item> A failing subscript \<open>d[k]\<close> is the value \<open>Inl KeyError\<close>.
  \<^item> \<open>xs[:k]\<close> is \<open>py_take\<close>, which counts from the end when \<open>k\<close> is negative.
\<close>

datatype error = KeyError

definition py_take :: "int \<Rightarrow> 'a list \<Rightarrow> 'a list" where
  "py_take k xs = (if 0 \<le> k then take (nat k) xs else take (length xs - nat (- k)) xs)"

text \<open>\<open>list.sort(key=lambda r: r.score, reverse=True)\<close>: a stable sort, descending.\<close>

definition sort_desc :: "('a \<Rightarrow> real) \<Rightarrow> 'a list \<Rightarrow> 'a list" where
  "sort_desc f xs = sort_key (\<lambda>r. - f r) xs"

text \<open>Reading a \<open>dict\<close> with a default, \<open>d.get(k, v)\<close>.\<close>

definition dict_get :: "('k \<times> 'v) list \<Rightarrow> 'k \<Rightarrow> 'v \<Rightarrow> 'v" where
  "dict_get d k v = (case map_of d k of None \<Rightarrow> v | Some w \<Rightarrow> w)"

subsection \<open>Strings\<close>

definition is_space :: "char \<Rightarrow> bool" where
  "is_space c = (c \<in> set [CHR 0x09, CHR 0x0A, CHR 0x0B, CHR 0x0C, CHR 0x0D,
                           CHR 0x1C, CHR 0x1D, CHR 0x1E, CHR 0x1F, CHR 0x20])"

definition lower_char :: "char \<Rightarrow> char" where
  "lower_char c =
     (case map_of (zip ''ABCDEFGHIJKLMNOPQRSTUVWXYZ'' ''abcdefghijklmnopqrstuvwxyz'') c of
        None \<Rightarrow> c | Some d \<Rightarrow> d)"

definition lower :: "string \<Rightarrow> string" where
  "lower s = map lower_char s"

definition strip :: "string \<Rightarrow> string" where
  "strip s = rev (dropWhile is_space (rev (dropWhile is_space s)))"

text \<open>\<open>s.split()\<close>: the maximal runs of characters that are not white space.\<close>

function split :: "string \<Rightarrow> string list" where
  "split [] = []"
| "split (c # cs) =
     (if is_space c then split cs
      else (c # takeWhile (\<lambda>d. \<not> is_space d) cs) # split (dropWhile (\<lambda>d. \<not> is_space d) cs))"
  by pat_completeness auto
termination
  by (relation "measure length") (auto simp: le_imp_less_Suc length_dropWhile_le)

text \<open>
  \<open>s.split(sep)\<close>: cut at every occurrence of \<open>sep\<close>, found from the left and not
  overlapping. \<open>acc\<close> is the segment read so far, reversed. The only call of the
  program passes the separator \<open>" and "\<close>; Python rejects an empty separator with a
  \<open>ValueError\<close>, which no call reaches.
\<close>

fun split_sep_aux :: "char \<Rightarrow> string \<Rightarrow> string \<Rightarrow> string \<Rightarrow> string list" where
  "split_sep_aux a sep acc [] = [rev acc]"
| "split_sep_aux a sep acc (c # cs) =
     (if take (Suc (length sep)) (c # cs) = a # sep
      then rev acc # split_sep_aux a sep [] (drop (length sep) cs)
      else split_sep_aux a sep (c # acc) cs)"

fun split_sep :: "string \<Rightarrow> string \<Rightarrow> string list" where
  "split_sep [] s = [s]"
| "split_sep (a # sep) s = split_sep_aux a sep [] s"

text \<open>\<open>sub in s\<close> on strings: \<open>sub\<close> occurs in \<open>s\<close> as a contiguous block.\<close>

fun contains :: "string \<Rightarrow> string \<Rightarrow> bool" where
  "contains [] sub = (sub = [])"
| "contains (c # cs) sub = (take (length sub) (c # cs) = sub \<or> contains cs sub)"

text \<open>\<open>" ".join(xs)\<close>\<close>

fun join :: "string list \<Rightarrow> string" where
  "join [] = []"
| "join [x] = x"
| "join (x # y # ys) = x @ '' '' @ join (y # ys)"

subsection \<open>Errors\<close>

definition bind :: "error + 'a \<Rightarrow> ('a \<Rightarrow> error + 'b) \<Rightarrow> error + 'b" where
  "bind m f = (case m of Inl e \<Rightarrow> Inl e | Inr x \<Rightarrow> f x)"

text \<open>The subscript \<open>d[k]\<close> of a plain \<open>dict\<close>.\<close>

definition subscript :: "('k \<times> 'v) list \<Rightarrow> 'k \<Rightarrow> error + 'v" where
  "subscript d k = (case map_of d k of None \<Rightarrow> Inl KeyError | Some v \<Rightarrow> Inr v)"

section \<open>The knowledge graph (\<open>data.py\<close>)\<close>

text \<open>
  Of the open \<open>metadata\<close> mapping of a node the program reads two keys:
  \<open>description\<close> is \<open>str(metadata.get("description", ""))\<close> and \<open>tags\<close> is
  \<open>[str(tag) for tag in metadata.get("tags", [])]\<close>. \<open>nid\<close> and \<open>eid\<close> are the
  fields \<open>id\<close> of \<open>Node\<close> and \<open>Hyperedge\<close>.
\<close>

record node =
  nid :: string
  label :: string
  kind :: string
  description :: string
  tags :: "string list"

definition text_signature :: "node \<Rightarrow> string" where
  "text_signature n =
     strip (label n @ '' '' @ kind n @ '' '' @ description n @ '' '' @ join (tags n))"

record hyperedge =
  eid :: string
  relation :: string
  node_ids :: "string list"
  weight :: real

record knowledge_graph =
  nodes :: "(string \<times> node) list"
  hyperedges :: "(string \<times> hyperedge) list"
  node_to_edges :: "(string \<times> string list) list"

definition empty_graph :: knowledge_graph where
  "empty_graph = \<lparr>nodes = [], hyperedges = [], node_to_edges = []\<rparr>"

definition setdefault :: "('k \<times> 'v) list \<Rightarrow> 'k \<Rightarrow> 'v \<Rightarrow> ('k \<times> 'v) list" where
  "setdefault d k v = (case map_of d k of None \<Rightarrow> AList.update k v d | Some w \<Rightarrow> d)"

definition add_node :: "knowledge_graph \<Rightarrow> node \<Rightarrow> knowledge_graph" where
  "add_node g n =
     g\<lparr>nodes := AList.update (nid n) n (nodes g),
       node_to_edges := setdefault (node_to_edges g) (nid n) []\<rparr>"

definition set_add :: "'a \<Rightarrow> 'a list \<Rightarrow> 'a list" where
  "set_add x xs = (if x \<in> set xs then xs else xs @ [x])"

text \<open>\<open>self._node_to_edges.setdefault(node_id, set()).add(edge.id)\<close>\<close>

definition link_edge :: "string \<Rightarrow> string \<Rightarrow> (string \<times> string list) list \<Rightarrow> (string \<times> string list) list" where
  "link_edge e k m = AList.update k (set_add e (dict_get m k [])) m"

definition add_hyperedge :: "knowledge_graph \<Rightarrow> hyperedge \<Rightarrow> knowledge_graph" where
  "add_hyperedge g e =
     g\<lparr>hyperedges := AList.update (eid e) e (hyperedges g),
       node_to_edges := fold (link_edge (eid e)) (node_ids e) (node_to_edges g)\<rparr>"

text \<open>
  \<open>neighbors\<close> is a generator; its callers consume it to the end, so the model returns
  the whole sequence, or the \<open>KeyError\<close> of \<open>self.hyperedges[edge_id]\<close>.
\<close>

definition related_nodes :: "knowledge_graph \<Rightarrow> string \<Rightarrow> hyperedge \<Rightarrow> node list" where
  "related_nodes g k edge =
     List.map_filter (\<lambda>r. if r \<noteq> k then map_of (nodes g) r else None) (node_ids edge)"

fun neighbors_of_edges :: "knowledge_graph \<Rightarrow> string \<Rightarrow> string list \<Rightarrow> error + node list" where
  "neighbors_of_edges g k [] = Inr []"
| "neighbors_of_edges g k (edge_id # es) =
     bind (subscript (hyperedges g) edge_id) (\<lambda>edge.
     bind (neighbors_of_edges g k es) (\<lambda>rest.
     Inr (related_nodes g k edge @ rest)))"

definition neighbors :: "knowledge_graph \<Rightarrow> string \<Rightarrow> error + node list" where
  "neighbors g k = neighbors_of_edges g k (dict_get (node_to_edges g) k [])"

definition all_nodes :: "knowledge_graph \<Rightarrow> node list" where
  "all_nodes g = map snd (nodes g)"

text \<open>A \<open>Source\<close> is what it produces: its nodes and its hyperedges.\<close>

definition from_sources :: "(node list \<times> hyperedge list) list \<Rightarrow> knowledge_graph" where
  "from_sources sources =
     fold (\<lambda>(ns, es) g. fold (\<lambda>e h. add_hyperedge h e) es (fold (\<lambda>n h. add_node h n) ns g))
       sources empty_graph"

text \<open>
  The graphs that calls of \<open>add_node\<close> and \<open>add_hyperedge\<close> build from the empty one.
\<close>

inductive built :: "knowledge_graph \<Rightarrow> bool" where
  built_empty: "built empty_graph"
| built_node: "built g \<Longrightarrow> built (add_node g n)"
| built_edge: "built g \<Longrightarrow> built (add_hyperedge g e)"

text \<open>
  What such a graph satisfies: each of the three dictionaries has distinct keys, a node is
  stored under its own id, and the adjacency index names registered hyperedges only, each
  once.
\<close>

definition graph_inv :: "knowledge_graph \<Rightarrow> bool" where
  "graph_inv g \<longleftrightarrow>
     distinct (map fst (nodes g)) \<and> distinct (map fst (hyperedges g)) \<and>
     distinct (map fst (node_to_edges g)) \<and>
     (\<forall>(k, n) \<in> set (nodes g). nid n = k) \<and>
     (\<forall>(k, es) \<in> set (node_to_edges g). distinct es \<and> set es \<subseteq> fst ` set (hyperedges g))"

section \<open>The ranking strategies (\<open>search_strategies.py\<close>)\<close>

record search_result =
  node :: node
  score :: real
  strategy :: string

subsection \<open>Vector strategy\<close>

definition tokenize :: "string \<Rightarrow> string list" where
  "tokenize text = map lower (filter (\<lambda>token. strip token \<noteq> []) (split text))"

text \<open>\<open>term_doc_frequency[term] += 1\<close> on a \<open>defaultdict(int)\<close>\<close>

definition count_term :: "string \<Rightarrow> (string \<times> nat) list \<Rightarrow> (string \<times> nat) list" where
  "count_term t m = AList.update t (dict_get m t 0 + 1) m"

definition term_doc_frequency :: "node list \<Rightarrow> (string \<times> nat) list" where
  "term_doc_frequency ns =
     fold (\<lambda>n m. fold count_term (remdups (tokenize (text_signature n))) m) ns []"

definition build_index :: "node list \<Rightarrow> (string \<times> real) list" where
  "build_index ns =
     (let doc_count = length ns in
      map (\<lambda>(t, freq). (t, ln ((real doc_count + 1) / (real freq + 1)) + 1))
        (term_doc_frequency ns))"

definition vector_score :: "(string \<times> real) list \<Rightarrow> node \<Rightarrow> string list \<Rightarrow> real" where
  "vector_score idf n query_terms =
     (let tokens = tokenize (text_signature n) in
      fold (\<lambda>t sc. let tf = count_list tokens t in
                    if tf \<noteq> 0 then sc + (1 + ln (real tf)) * dict_get idf t 0 else sc)
        query_terms 0)"

text \<open>The state of a Vector strategy is its table \<open>_idf\<close>; \<open>search\<close> returns the new one.\<close>

definition vector_search ::
  "(string \<times> real) list \<Rightarrow> knowledge_graph \<Rightarrow> string \<Rightarrow> int \<Rightarrow> search_result list \<times> (string \<times> real) list" where
  "vector_search idf g query limit =
     (let ns = all_nodes g;
          idf' = (if idf = [] then build_index ns else idf);
          query_terms = tokenize query;
          scored = map (\<lambda>n. \<lparr>node = n, score = vector_score idf' n query_terms,
                              strategy = ''vector''\<rparr>) ns
      in (py_take limit (filter (\<lambda>r. score r > 0) (sort_desc score scored)), idf'))"

subsection \<open>Graph-Traversal strategy\<close>

definition query_keywords :: "string \<Rightarrow> string list" where
  "query_keywords query = remdups (map lower (filter (\<lambda>token. strip token \<noteq> []) (split query)))"

definition is_seed :: "string \<Rightarrow> node \<Rightarrow> bool" where
  "is_seed query n = list_ex (\<lambda>kw. contains (lower (text_signature n)) kw) (query_keywords query)"

definition base_scores :: "knowledge_graph \<Rightarrow> string \<Rightarrow> (string \<times> real) list" where
  "base_scores g query =
     fold (\<lambda>n base. if is_seed query n then AList.update (nid n) 1 base else base)
       (all_nodes g) []"

text \<open>Reading \<open>d[k]\<close> on a \<open>defaultdict(float)\<close> stores \<open>0.0\<close> under a missing key.\<close>

definition dd_read :: "(string \<times> real) list \<Rightarrow> string \<Rightarrow> real \<times> (string \<times> real) list" where
  "dd_read d k = (case map_of d k of None \<Rightarrow> (0, AList.update k 0 d) | Some v \<Rightarrow> (v, d))"

text \<open>The body of the innermost loop, for one neighbour of a frontier entry.\<close>

definition visit ::
  "real \<Rightarrow> node \<Rightarrow> (string \<times> real) list \<times> (string \<times> real) list \<Rightarrow>
     (string \<times> real) list \<times> (string \<times> real) list" where
  "visit sc neighbor st =
     (let (propagation, next_frontier) = st; propagated = sc * 0.6 in
      if propagated > 0.01 then
        (let (cur, p1) = dd_read propagation (nid neighbor);
             p2 = (if propagated > cur
                   then AList.update (nid neighbor) (max (fst (dd_read p1 (nid neighbor))) propagated) p1
                   else p1)
         in (p2, next_frontier @ [(nid neighbor, propagated)]))
      else st)"

fun expand ::
  "knowledge_graph \<Rightarrow> (string \<times> real) list \<Rightarrow>
     (string \<times> real) list \<times> (string \<times> real) list \<Rightarrow>
     error + (string \<times> real) list \<times> (string \<times> real) list" where
  "expand g [] st = Inr st"
| "expand g ((k, sc) # frontier) st =
     bind (neighbors g k) (\<lambda>nbs. expand g frontier (fold (visit sc) nbs st))"

fun propagate ::
  "knowledge_graph \<Rightarrow> nat \<Rightarrow> (string \<times> real) list \<Rightarrow> (string \<times> real) list \<Rightarrow>
     error + (string \<times> real) list" where
  "propagate g 0 frontier propagation = Inr propagation"
| "propagate g (Suc d) frontier propagation =
     bind (expand g frontier (propagation, [])) (\<lambda>(p, next_frontier).
     propagate g d next_frontier p)"

definition combine :: "(string \<times> real) list \<Rightarrow> (string \<times> real) list \<Rightarrow> (string \<times> real) list" where
  "combine base propagation =
     fold (\<lambda>(k, sc) c. AList.update k (max (dict_get c k 0) sc) c) propagation
       (fold (\<lambda>(k, sc) c. AList.update k (dict_get c k 0 + sc) c) base [])"

text \<open>The score dictionary of a search, before the nodes are looked up.\<close>

definition combined_scores :: "int \<Rightarrow> knowledge_graph \<Rightarrow> string \<Rightarrow> error + (string \<times> real) list" where
  "combined_scores walk_depth g query =
     (let base = base_scores g query in
      bind (propagate g (nat walk_depth) base []) (\<lambda>propagation.
      Inr (combine base propagation)))"

fun graph_results :: "knowledge_graph \<Rightarrow> (string \<times> real) list \<Rightarrow> error + search_result list" where
  "graph_results g [] = Inr []"
| "graph_results g ((k, sc) # rest) =
     bind (subscript (nodes g) k) (\<lambda>n.
     bind (graph_results g rest) (\<lambda>rs.
     Inr (\<lparr>node = n, score = sc, strategy = ''graph''\<rparr> # rs)))"

definition graph_search :: "int \<Rightarrow> knowledge_graph \<Rightarrow> string \<Rightarrow> int \<Rightarrow> error + search_result list" where
  "graph_search walk_depth g query limit =
     bind (combined_scores walk_depth g query) (\<lambda>combined.
     bind (graph_results g combined) (\<lambda>results.
     Inr (py_take limit (sort_desc score results))))"

subsection \<open>Ontology-Lens strategy\<close>

definition facets :: "string \<Rightarrow> string list" where
  "facets query =
     map (\<lambda>segment. lower (strip segment))
       (filter (\<lambda>segment. strip segment \<noteq> []) (split_sep '' and '' query))"

definition match_count :: "string list \<Rightarrow> node \<Rightarrow> nat" where
  "match_count filters n =
     length (filter (\<lambda>filt. list_ex (\<lambda>tag. contains tag filt) (map lower (tags n))) filters)"

definition ontology_results :: "knowledge_graph \<Rightarrow> string \<Rightarrow> search_result list" where
  "ontology_results g query =
     (let filters = facets query in
      List.map_filter
        (\<lambda>n. if match_count filters n \<noteq> 0
             then Some \<lparr>node = n, score = real (match_count filters n) / real (length filters),
                        strategy = ''ontology''\<rparr>
             else None)
        (all_nodes g))"

definition ontology_search :: "knowledge_graph \<Rightarrow> string \<Rightarrow> int \<Rightarrow> search_result list" where
  "ontology_search g query limit = py_take limit (sort_desc score (ontology_results g query))"

subsection \<open>The strategies as one type\<close>

text \<open>
  A strategy object is its class together with its mutable fields: the idf table of a
  Vector strategy, the walk depth of a Graph-Traversal strategy. \<open>search\<close> returns the
  results and the object after the call.
\<close>

datatype search_strategy =
  VectorSemanticSearch "(string \<times> real) list"
| GraphTraversalSearch int
| OntologyLensSearch

fun name :: "search_strategy \<Rightarrow> string" where
  "name (VectorSemanticSearch idf) = ''vector''"
| "name (GraphTraversalSearch walk_depth) = ''graph''"
| "name OntologyLensSearch = ''ontology''"

fun search ::
  "search_strategy \<Rightarrow> knowledge_graph \<Rightarrow> string \<Rightarrow> int \<Rightarrow> error + search_result list \<times> search_strategy" where
  "search (VectorSemanticSearch idf) g query limit =
     (let (rs, idf') = vector_search idf g query limit in Inr (rs, VectorSemanticSearch idf'))"
| "search (GraphTraversalSearch walk_depth) g query limit =
     bind (graph_search walk_depth g query limit) (\<lambda>rs. Inr (rs, GraphTraversalSearch walk_depth))"
| "search OntologyLensSearch g query limit = Inr (ontology_search g query limit, OntologyLensSearch)"

subsection \<open>Hybrid strategy\<close>

text \<open>
  The constituents of a Hybrid strategy are Vector, Graph-Traversal and Ontology-Lens
  strategies; a Hybrid strategy does not change its weights when it searches, and it changes
  its constituents as far as their own \<open>search\<close> does.
\<close>

record hybrid =
  strategies :: "search_strategy list"
  weights :: "(string \<times> real) list"

definition hybrid_init :: "search_strategy list \<Rightarrow> hybrid" where
  "hybrid_init sts =
     \<lparr>strategies = sts, weights = fold (\<lambda>s w. AList.update (name s) 1 w) sts []\<rparr>"

text \<open>The first loop of \<open>search\<close>: \<open>strategy_results[strategy.name] = strategy.search(...)\<close>.\<close>

fun run_strategies ::
  "search_strategy list \<Rightarrow> knowledge_graph \<Rightarrow> string \<Rightarrow> int \<Rightarrow> (string \<times> search_result list) list \<Rightarrow>
     error + (string \<times> search_result list) list \<times> search_strategy list" where
  "run_strategies [] g query limit acc = Inr (acc, [])"
| "run_strategies (s # ss) g query limit acc =
     bind (search s g query limit) (\<lambda>(rs, s').
     bind (run_strategies ss g query limit (AList.update (name s) rs acc)) (\<lambda>(acc', ss').
     Inr (acc', s' # ss')))"

text \<open>The inner loop over \<open>enumerate(results, start=1)\<close>.\<close>

fun fuse ::
  "real \<Rightarrow> nat \<Rightarrow> search_result list \<Rightarrow> (string \<times> real) list \<times> (string \<times> node) list \<Rightarrow>
     (string \<times> real) list \<times> (string \<times> node) list" where
  "fuse w rank [] st = st"
| "fuse w rank (r # rs) (score_by_node, node_obj) =
     fuse w (Suc rank) rs
       (AList.update (nid (node r)) (dict_get score_by_node (nid (node r)) 0 + w / real rank) score_by_node,
        AList.update (nid (node r)) (node r) node_obj)"

definition fuse_all ::
  "(string \<times> real) list \<Rightarrow> (string \<times> search_result list) list \<Rightarrow>
     (string \<times> real) list \<times> (string \<times> node) list" where
  "fuse_all ws strategy_results =
     fold (\<lambda>(nm, results) st. fuse (dict_get ws nm 1) 1 results st) strategy_results ([], [])"

fun merged :: "(string \<times> node) list \<Rightarrow> (string \<times> real) list \<Rightarrow> error + search_result list" where
  "merged node_obj [] = Inr []"
| "merged node_obj ((k, sc) # rest) =
     bind (subscript node_obj k) (\<lambda>n.
     bind (merged node_obj rest) (\<lambda>rs.
     Inr (\<lparr>node = n, score = sc, strategy = ''hybrid''\<rparr> # rs)))"

definition hybrid_search ::
  "hybrid \<Rightarrow> knowledge_graph \<Rightarrow> string \<Rightarrow> int \<Rightarrow> error + search_result list \<times> hybrid" where
  "hybrid_search h g query limit =
     bind (run_strategies (strategies h) g query limit []) (\<lambda>(strategy_results, sts').
     let (score_by_node, node_obj) = fuse_all (weights h) strategy_results in
     bind (merged node_obj score_by_node) (\<lambda>ms.
     Inr (py_take limit (sort_desc score ms), h\<lparr>strategies := sts'\<rparr>)))"

definition update_weight :: "real \<Rightarrow> string \<times> real \<Rightarrow> (string \<times> real) list \<Rightarrow> (string \<times> real) list" where
  "update_weight learning_rate p ws =
     (let (nm, delta) = p; current = dict_get ws nm 1
      in AList.update nm (max 0.1 (current + learning_rate * delta)) ws)"

definition update_weights :: "hybrid \<Rightarrow> (string \<times> real) list \<Rightarrow> real \<Rightarrow> hybrid" where
  "update_weights h performance learning_rate =
     h\<lparr>weights := fold (update_weight learning_rate) performance (weights h)\<rparr>"

text \<open>A sequence of calls of \<open>update_weights\<close>, each with its performance map and rate.\<close>

definition apply_updates :: "hybrid \<Rightarrow> ((string \<times> real) list \<times> real) list \<Rightarrow> hybrid" where
  "apply_updates h calls =
     fold (\<lambda>(performance, learning_rate) h'. update_weights h' performance learning_rate) calls h"

section \<open>The evaluation league (\<open>self_improver.py\<close>)\<close>

record query_example =
  query :: string
  relevant_ids :: "string list"

definition precision_at_k :: "search_result list \<Rightarrow> string list \<Rightarrow> int \<Rightarrow> real" where
  "precision_at_k results relevant k =
     (let top_k = py_take k results in
      if top_k = [] then 0
      else real (length (filter (\<lambda>r. nid (node r) \<in> set relevant) top_k)) / real (length top_k))"

text \<open>
  A league holds its graph, its evaluation set and its Hybrid strategy. The list
  \<open>self.strategies\<close> and the list of the Hybrid strategy hold the same strategy objects,
  so the model keeps them once, in the field \<open>strategies\<close> of \<open>hybrid\<close>.
\<close>

record search_league =
  graph :: knowledge_graph
  evaluation_set :: "query_example list"
  hybrid :: hybrid

definition league_init ::
  "knowledge_graph \<Rightarrow> search_strategy list \<Rightarrow> query_example list \<Rightarrow> search_league" where
  "league_init g sts examples = \<lparr>graph = g, evaluation_set = examples, hybrid = hybrid_init sts\<rparr>"

text \<open>\<open>d[k] += x\<close> and \<open>d[k] /= x\<close> on a plain \<open>dict\<close>, for \<open>x\<close> other than zero.\<close>

definition dict_add :: "(string \<times> real) list \<Rightarrow> string \<Rightarrow> real \<Rightarrow> error + (string \<times> real) list" where
  "dict_add d k x = bind (subscript d k) (\<lambda>v. Inr (AList.update k (v + x) d))"

definition dict_div :: "(string \<times> real) list \<Rightarrow> string \<Rightarrow> real \<Rightarrow> error + (string \<times> real) list" where
  "dict_div d k x = bind (subscript d k) (\<lambda>v. Inr (AList.update k (v / x) d))"

text \<open>The first inner loop of \<open>run_round\<close>, for one example.\<close>

fun score_strategies ::
  "knowledge_graph \<Rightarrow> query_example \<Rightarrow> search_strategy list \<Rightarrow> (string \<times> real) list \<Rightarrow>
     error + (string \<times> real) list \<times> search_strategy list" where
  "score_strategies g ex [] performance = Inr (performance, [])"
| "score_strategies g ex (s # ss) performance =
     bind (search s g (query ex) 5) (\<lambda>(results, s').
     bind (dict_add performance (name s) (precision_at_k results (relevant_ids ex) 5)) (\<lambda>performance'.
     bind (score_strategies g ex ss performance') (\<lambda>(p, ss').
     Inr (p, s' # ss'))))"

text \<open>The second inner loop: the Hybrid's precision \<open>sc\<close> against each constituent's.\<close>

fun compare_strategies ::
  "knowledge_graph \<Rightarrow> query_example \<Rightarrow> real \<Rightarrow> search_strategy list \<Rightarrow> (string \<times> real) list \<Rightarrow>
     error + (string \<times> real) list \<times> search_strategy list" where
  "compare_strategies g ex sc [] hybrid_performance = Inr (hybrid_performance, [])"
| "compare_strategies g ex sc (s # ss) hybrid_performance =
     bind (search s g (query ex) 5) (\<lambda>(results, s').
     bind (dict_add hybrid_performance (name s)
             (sc - precision_at_k results (relevant_ids ex) 5)) (\<lambda>hybrid_performance'.
     bind (compare_strategies g ex sc ss hybrid_performance') (\<lambda>(p, ss').
     Inr (p, s' # ss'))))"

text \<open>The loop over the evaluation set.\<close>

fun evaluate ::
  "knowledge_graph \<Rightarrow> query_example list \<Rightarrow> hybrid \<times> (string \<times> real) list \<times> (string \<times> real) list \<Rightarrow>
     error + hybrid \<times> (string \<times> real) list \<times> (string \<times> real) list" where
  "evaluate g [] st = Inr st"
| "evaluate g (ex # exs) (h, performance, hybrid_performance) =
     bind (score_strategies g ex (strategies h) performance) (\<lambda>(performance', sts1).
     bind (hybrid_search (h\<lparr>strategies := sts1\<rparr>) g (query ex) 5) (\<lambda>(hybrid_results, h2).
     bind (compare_strategies g ex (precision_at_k hybrid_results (relevant_ids ex) 5)
             (strategies h2) hybrid_performance) (\<lambda>(hybrid_performance', sts3).
     evaluate g exs (h2\<lparr>strategies := sts3\<rparr>, performance', hybrid_performance'))))"

text \<open>\<open>for name in performance:\<close> divides both dictionaries at the keys of the first.\<close>

fun normalize ::
  "real \<Rightarrow> string list \<Rightarrow> (string \<times> real) list \<times> (string \<times> real) list \<Rightarrow>
     error + (string \<times> real) list \<times> (string \<times> real) list" where
  "normalize query_count [] st = Inr st"
| "normalize query_count (nm # nms) (performance, hybrid_performance) =
     bind (dict_div performance nm query_count) (\<lambda>performance'.
     bind (dict_div hybrid_performance nm query_count) (\<lambda>hybrid_performance'.
     normalize query_count nms (performance', hybrid_performance')))"

definition zero_scores :: "search_strategy list \<Rightarrow> (string \<times> real) list" where
  "zero_scores sts = fold (\<lambda>s d. AList.update (name s) 0 d) sts []"

definition query_count :: "search_league \<Rightarrow> nat" where
  "query_count l = max (length (evaluation_set l)) 1"

definition run_round :: "search_league \<Rightarrow> error + (string \<times> real) list \<times> search_league" where
  "run_round l =
     bind (evaluate (graph l) (evaluation_set l)
             (hybrid l, zero_scores (strategies (hybrid l)), zero_scores (strategies (hybrid l))))
       (\<lambda>(h, performance, hybrid_performance).
     bind (normalize (real (query_count l)) (map fst performance) (performance, hybrid_performance))
       (\<lambda>(performance', hybrid_performance').
     Inr (performance', l\<lparr>hybrid := update_weights h hybrid_performance' 0.1\<rparr>)))"

subsection \<open>A small graph\<close>

text \<open>
  Three nodes and two hyperedges, the second with a dangling node id \<open>z\<close>, on which
  the functions above are evaluated.
\<close>

definition node_a :: node where
  "node_a = \<lparr>nid = ''a'', label = ''Att'', kind = ''p'', description = ''tr net'', tags = [''DL'', ''tr'']\<rparr>"

definition node_b :: node where
  "node_b = \<lparr>nid = ''b'', label = ''Fold'', kind = ''p'', description = ''bio'', tags = [''bio'', ''dl'']\<rparr>"

definition node_c :: node where
  "node_c = \<lparr>nid = ''c'', label = ''Wiki'', kind = ''w'', description = ''dl'', tags = [''dl'', ''ov'']\<rparr>"

definition edge_t :: hyperedge where
  "edge_t = \<lparr>eid = ''t'', relation = ''topic'', node_ids = [''a'', ''b''], weight = 1\<rparr>"

definition edge_u :: hyperedge where
  "edge_u = \<lparr>eid = ''u'', relation = ''cites'', node_ids = [''b'', ''c'', ''z''], weight = 1\<rparr>"

definition demo_graph :: knowledge_graph where
  "demo_graph = from_sources [([node_a, node_b, node_c], [edge_t, edge_u])]"

subsection \<open>Vocabulary of the statements\<close>

text \<open>The number of nodes whose tokenized signature holds the term \<open>t\<close>.\<close>

definition doc_frequency :: "node list \<Rightarrow> string \<Rightarrow> nat" where
  "doc_frequency ns t = length (filter (\<lambda>n. t \<in> set (tokenize (text_signature n))) ns)"

text \<open>Every node of the graph with its Vector score under the table \<open>idf\<close>.\<close>

definition vector_scored :: "(string \<times> real) list \<Rightarrow> knowledge_graph \<Rightarrow> string \<Rightarrow> search_result list" where
  "vector_scored idf g q = map (\<lambda>n. \<lparr>node = n, score = vector_score idf n (tokenize q), strategy = ''vector''\<rparr>) (all_nodes g)"

text \<open>The adjacency index \<open>m\<close> has distinct keys and names, each once, hyperedge ids of \<open>H\<close> only.\<close>

definition index_ok :: "string set \<Rightarrow> (string \<times> string list) list \<Rightarrow> bool" where
  "index_ok H m \<longleftrightarrow> distinct (map fst m) \<and> (\<forall>(k, es) \<in> set m. distinct es \<and> set es \<subseteq> H)"

text \<open>
  The neighbours of a node when no subscript fails, the effect of one propagated value on
  the dictionary \<open>propagation\<close>, the values that one hop pushes from a frontier, and
  the values of \<open>d\<close> hops in the order in which the loops produce them.
\<close>

definition neighbor_nodes :: "knowledge_graph \<Rightarrow> string \<Rightarrow> node list" where
  "neighbor_nodes g k =
     concat (map (\<lambda>e. case map_of (hyperedges g) e of None \<Rightarrow> [] | Some edge \<Rightarrow> related_nodes g k edge)
       (dict_get (node_to_edges g) k []))"

definition add_push :: "string \<times> real \<Rightarrow> (string \<times> real) list \<Rightarrow> (string \<times> real) list" where
  "add_push kv p =
     (let (k, v) = kv; (cur, p1) = dd_read p k in if v > cur then AList.update k (max cur v) p1 else p1)"

definition pushes :: "knowledge_graph \<Rightarrow> (string \<times> real) list \<Rightarrow> (string \<times> real) list" where
  "pushes g frontier =
     concat (map (\<lambda>(m, sc). map (\<lambda>nb. (nid nb, sc * 0.6))
                    (if sc * 0.6 > 0.01 then neighbor_nodes g m else [])) frontier)"

fun all_pushes :: "knowledge_graph \<Rightarrow> nat \<Rightarrow> (string \<times> real) list \<Rightarrow> (string \<times> real) list" where
  "all_pushes g 0 frontier = []"
| "all_pushes g (Suc d) frontier = pushes g frontier @ all_pushes g d (pushes g frontier)"

text \<open>The node id \<open>k\<close> belongs to a node that the query seeds.\<close>

definition seeded :: "knowledge_graph \<Rightarrow> string \<Rightarrow> string \<Rightarrow> bool" where
  "seeded g q k \<longleftrightarrow> (\<exists>n \<in> set (all_nodes g). is_seed q n \<and> nid n = k)"

text \<open>
  The propagation of the Graph-Traversal strategy in the words of its description. The
  seeds hold the value 1.0 at hop 0; at each hop a node that holds a value pushes that
  value times 0.6 to each of its neighbours, unless the product is 0.01 or less.
  \<open>receives g q h k v\<close>: in hop \<open>h\<close> the node id \<open>k\<close> receives the value \<open>v\<close>.
  The propagated score of a node is the maximum of what it receives in the hops 1 to
  \<open>d\<close>, and its final score the maximum of its seed score and its propagated score.
  \<open>frontier_at\<close> is the list \<open>frontier\<close> of the code after \<open>h\<close> hops.
\<close>

inductive receives :: "knowledge_graph \<Rightarrow> string \<Rightarrow> nat \<Rightarrow> string \<Rightarrow> real \<Rightarrow> bool"
  for g :: knowledge_graph and q :: string where
  receives_seed: "seeded g q k \<Longrightarrow> receives g q 0 k 1"
| receives_hop: "receives g q h m v \<Longrightarrow> nb \<in> set (neighbor_nodes g m) \<Longrightarrow> v * 0.6 > 0.01 \<Longrightarrow>
     receives g q (Suc h) (nid nb) (v * 0.6)"

definition propagated_values :: "knowledge_graph \<Rightarrow> string \<Rightarrow> nat \<Rightarrow> string \<Rightarrow> real set" where
  "propagated_values g q d k = {v. \<exists>h. 1 \<le> h \<and> h \<le> d \<and> receives g q h k v}"

definition final_score :: "knowledge_graph \<Rightarrow> string \<Rightarrow> nat \<Rightarrow> string \<Rightarrow> real option" where
  "final_score g q d k =
     (let P = propagated_values g q d k in
      if seeded g q k then Some (if P = {} then 1 else max 1 (Max P))
      else if P = {} then None else Some (Max P))"

fun frontier_at :: "knowledge_graph \<Rightarrow> (string \<times> real) list \<Rightarrow> nat \<Rightarrow> (string \<times> real) list" where
  "frontier_at g b 0 = b"
| "frontier_at g b (Suc h) = pushes g (frontier_at g b h)"

text \<open>The idf table of a Vector strategy after a sequence of searches, each on its own graph.\<close>

definition vector_searches ::
  "(string \<times> real) list \<Rightarrow> (knowledge_graph \<times> string \<times> int) list \<Rightarrow> (string \<times> real) list" where
  "vector_searches idf calls = fold (\<lambda>(g, q, limit) idf'. snd (vector_search idf' g q limit)) calls idf"

text \<open>The strategy object that a search on the graph \<open>g\<close> leaves.\<close>

fun warm :: "knowledge_graph \<Rightarrow> search_strategy \<Rightarrow> search_strategy" where
  "warm g (VectorSemanticSearch idf) =
     VectorSemanticSearch (if idf = [] then build_index (all_nodes g) else idf)"
| "warm g (GraphTraversalSearch walk_depth) = GraphTraversalSearch walk_depth"
| "warm g OntologyLensSearch = OntologyLensSearch"

text \<open>The list \<open>merged\<close> of a Hybrid search when no subscript fails.\<close>

definition merged_list :: "(string \<times> real) list \<Rightarrow> (string \<times> search_result list) list \<Rightarrow> search_result list" where
  "merged_list ws sr =
     map (\<lambda>(k, sc). \<lparr>node = the (map_of (snd (fuse_all ws sr)) k), score = sc, strategy = ''hybrid''\<rparr>)
       (fst (fuse_all ws sr))"

text \<open>
  The result list of a constituent (empty should its search fail, which the invariant of
  the graph excludes), the contribution of a list \<open>rs\<close> with weight \<open>w\<close> to the node
  id \<open>k\<close> (ranks count from 1, as \<open>enumerate(results, start=1)\<close> does), and the sum
  of the contributions of all constituents of a Hybrid strategy.
\<close>

definition results_of :: "search_strategy \<Rightarrow> knowledge_graph \<Rightarrow> string \<Rightarrow> int \<Rightarrow> search_result list" where
  "results_of s g q limit = (case search s g q limit of Inl e \<Rightarrow> [] | Inr (rs, s') \<Rightarrow> rs)"

definition contribution :: "real \<Rightarrow> search_result list \<Rightarrow> string \<Rightarrow> real" where
  "contribution w rs k = (\<Sum>(r, x)\<leftarrow>List.enumerate 1 rs. if nid (node x) = k then w / real r else 0)"

definition fused_score :: "hybrid \<Rightarrow> knowledge_graph \<Rightarrow> string \<Rightarrow> int \<Rightarrow> string \<Rightarrow> real" where
  "fused_score h g q limit k =
     (\<Sum>s\<leftarrow>strategies h. contribution (dict_get (weights h) (name s) 1) (results_of s g q limit) k)"

text \<open>One round of the outer loop of the fusion.\<close>

definition fuse_step ::
  "(string \<times> real) list \<Rightarrow> string \<times> search_result list \<Rightarrow>
     (string \<times> real) list \<times> (string \<times> node) list \<Rightarrow> (string \<times> real) list \<times> (string \<times> node) list" where
  "fuse_step ws a st = fuse (dict_get ws (fst a) 1) 1 (snd a) st"

text \<open>Two Hybrid strategies, the second with two constituents of the same name.\<close>

definition demo_hybrid :: hybrid where
  "demo_hybrid = hybrid_init [GraphTraversalSearch 2, OntologyLensSearch]"

definition twin_hybrid :: hybrid where
  "twin_hybrid = hybrid_init [OntologyLensSearch, OntologyLensSearch]"

text \<open>
  The results of a Hybrid search, the precision at 5 of a constituent and of the Hybrid
  for one example, and the sums that the loop of \<open>run_round\<close> accumulates under the
  name \<open>k\<close>.
\<close>

definition hybrid_results :: "hybrid \<Rightarrow> knowledge_graph \<Rightarrow> string \<Rightarrow> int \<Rightarrow> search_result list" where
  "hybrid_results h g q limit = (case hybrid_search h g q limit of Inl e \<Rightarrow> [] | Inr (rs, h') \<Rightarrow> rs)"

definition precision_of :: "search_strategy \<Rightarrow> knowledge_graph \<Rightarrow> query_example \<Rightarrow> real" where
  "precision_of s g ex = precision_at_k (results_of s g (query ex) 5) (relevant_ids ex) 5"

definition hybrid_precision :: "hybrid \<Rightarrow> knowledge_graph \<Rightarrow> query_example \<Rightarrow> real" where
  "hybrid_precision h g ex = precision_at_k (hybrid_results h g (query ex) 5) (relevant_ids ex) 5"

definition total_precision :: "search_strategy list \<Rightarrow> knowledge_graph \<Rightarrow> query_example list \<Rightarrow> string \<Rightarrow> real" where
  "total_precision sts g exs k =
     (\<Sum>ex\<leftarrow>exs. \<Sum>s\<leftarrow>filter (\<lambda>s. name s = k) sts. precision_of s g ex)"

definition total_advantage :: "hybrid \<Rightarrow> knowledge_graph \<Rightarrow> query_example list \<Rightarrow> string \<Rightarrow> real" where
  "total_advantage h g exs k =
     (\<Sum>ex\<leftarrow>exs. \<Sum>s\<leftarrow>filter (\<lambda>s. name s = k) (strategies h).
        hybrid_precision h g ex - precision_of s g ex)"

text \<open>A league over the small graph, with one example.\<close>

definition demo_league :: search_league where
  "demo_league = league_init demo_graph [GraphTraversalSearch 2, OntologyLensSearch]
     [\<lparr>query = ''Bio'', relevant_ids = [''b'']\<rparr>]"

section \<open>Properties\<close>

lemma split_example: "split ''Deep  Learning '' = [''Deep'', ''Learning'']"
  by (simp add: is_space_def)

lemma lower_example: "lower ''Deep Learning-2'' = ''deep learning-2''"
  by (simp add: lower_def lower_char_def)

lemma split_sep_example:
  "split_sep '' and '' ''a and b and and c'' = [''a'', ''b'', ''and c'']"
  by simp

lemma contains_example: "contains ''protein folding'' ''tein f'' \<and> \<not> contains ''abc'' ''ac''"
  by simp

subsection \<open>Dictionaries\<close>

lemma set_update_subset: "set (AList.update k v d) \<subseteq> insert (k, v) (set d)"
  by (induction d) auto

subsection \<open>The weights of the Hybrid strategy\<close>

lemma update_weight_floor:
  assumes "\<forall>(k, w) \<in> set ws. 0.1 \<le> w"
  shows "\<forall>(k, w) \<in> set (update_weight lr p ws). 0.1 \<le> w"
proof -
  obtain nm delta where p: "p = (nm, delta)" by (cases p)
  let ?v = "max 0.1 (dict_get ws nm 1 + lr * delta)"
  have eq: "update_weight lr p ws = AList.update nm ?v ws"
    by (simp add: update_weight_def p)
  have "0.1 \<le> ?v" by simp
  with assms set_update_subset[of nm ?v ws] show ?thesis
    unfolding eq by blast
qed

lemma fold_update_weight_floor:
  "\<forall>(k, w) \<in> set ws. 0.1 \<le> w \<Longrightarrow>
   \<forall>(k, w) \<in> set (fold (update_weight lr) perf ws). 0.1 \<le> w"
proof (induction perf arbitrary: ws)
  case Nil then show ?case by simp
next
  case (Cons p perf)
  have "\<forall>(k, w) \<in> set (fold (update_weight lr) perf (update_weight lr p ws)). 0.1 \<le> w"
    by (rule Cons.IH) (rule update_weight_floor[OF Cons.prems])
  then show ?case by simp
qed

lemma update_weights_floor:
  assumes "\<forall>(k, w) \<in> set (weights h). 0.1 \<le> w"
  shows "\<forall>(k, w) \<in> set (weights (update_weights h perf lr)). 0.1 \<le> w"
proof -
  have eq: "weights (update_weights h perf lr) = fold (update_weight lr) perf (weights h)"
    by (simp add: update_weights_def)
  show ?thesis unfolding eq by (rule fold_update_weight_floor[OF assms])
qed

lemma init_values_aux:
  "\<forall>(k, w) \<in> set d. w = v \<Longrightarrow>
   \<forall>(k, w) \<in> set (fold (\<lambda>s w. AList.update (name s) (v::real) w) sts d). w = v"
proof (induction sts arbitrary: d)
  case Nil then show ?case by simp
next
  case (Cons s sts)
  from Cons.prems set_update_subset[of "name s" v d]
  have "\<forall>(k, w) \<in> set (AList.update (name s) v d). w = v" by blast
  from Cons.IH[OF this] show ?case by simp
qed

lemma init_keys_aux:
  "fst ` set (fold (\<lambda>s w. AList.update (name s) (v::real) w) sts d) = fst ` set d \<union> name ` set sts"
proof (induction sts arbitrary: d)
  case Nil then show ?case by simp
next
  case (Cons s sts)
  show ?case by (auto simp: Cons.IH dom_update)
qed

lemma hybrid_init_weights: "\<forall>(k, w) \<in> set (weights (hybrid_init sts)). w = 1"
  using init_values_aux[of "[]" 1 sts] by (simp add: hybrid_init_def)

lemma hybrid_init_keys: "fst ` set (weights (hybrid_init sts)) = name ` set sts"
  using init_keys_aux[of 1 sts "[]"] by (simp add: hybrid_init_def)

lemma apply_updates_floor:
  "\<forall>(k, w) \<in> set (weights h). 0.1 \<le> w \<Longrightarrow>
   \<forall>(k, w) \<in> set (weights (apply_updates h calls)). 0.1 \<le> w"
proof (induction calls arbitrary: h)
  case Nil then show ?case by (simp add: apply_updates_def)
next
  case (Cons c calls)
  obtain perf lr where c: "c = (perf, lr)" by (cases c)
  have "\<forall>(k, w) \<in> set (weights (apply_updates (update_weights h perf lr) calls)). 0.1 \<le> w"
    by (rule Cons.IH) (rule update_weights_floor[OF Cons.prems])
  then show ?case by (simp add: c apply_updates_def)
qed

lemma weights_unbounded:
  "\<exists>delta. b < dict_get (weights (update_weights (hybrid_init (s # sts)) [(name s, delta)] 0.1)) (name s) 1"
proof -
  let ?h = "hybrid_init (s # sts)"
  let ?c = "dict_get (weights ?h) (name s) 1"
  let ?d = "10 * (max b 0.1 + 1 - ?c)"
  have "dict_get (weights (update_weights ?h [(name s, ?d)] 0.1)) (name s) 1 = max 0.1 (?c + 0.1 * ?d)"
    by (simp add: update_weights_def update_weight_def dict_get_def update_conv')
  moreover have "?c + 0.1 * ?d = max b 0.1 + 1" by (simp add: algebra_simps)
  moreover have "b < max 0.1 (max b 0.1 + 1)" by simp
  ultimately show ?thesis by (metis (no_types))
qed

text \<open>
  C4. Every weight of a new Hybrid strategy is 1.0. After any sequence of calls of
  \<open>update_weights\<close>, whatever the performance maps and the learning rates, every weight
  of the weight map is at least 0.1. The weights have no upper bound: for a Hybrid with a
  constituent \<open>s\<close> and any bound \<open>b\<close>, one call with rate 0.1 takes the weight of \<open>s\<close>
  above \<open>b\<close>.
\<close>

theorem hybrid_weights_floor:
  "(\<forall>(k, w) \<in> set (weights (hybrid_init sts)). w = 1) \<and>
   (\<forall>(k, w) \<in> set (weights (apply_updates (hybrid_init sts) calls)). 0.1 \<le> w) \<and>
   (\<forall>b. \<exists>delta. b < dict_get (weights (update_weights (hybrid_init (s # sts')) [(name s, delta)] 0.1)) (name s) 1)"
proof (intro conjI allI)
  show "\<forall>(k, w) \<in> set (weights (hybrid_init sts)). w = 1" by (rule hybrid_init_weights)
  then have "\<forall>(k, w) \<in> set (weights (hybrid_init sts)). 0.1 \<le> w" by fastforce
  then show "\<forall>(k, w) \<in> set (weights (apply_updates (hybrid_init sts) calls)). 0.1 \<le> w"
    by (rule apply_updates_floor)
  show "\<exists>delta. b < dict_get (weights (update_weights (hybrid_init (s # sts')) [(name s, delta)] 0.1)) (name s) 1" for b
    by (rule weights_unbounded)
qed

theorem hybrid_weights_floor_witness:
  "weights (hybrid_init [OntologyLensSearch, GraphTraversalSearch 2]) = [(''ontology'', 1), (''graph'', 1)] \<and>
   weights (apply_updates (hybrid_init [OntologyLensSearch, GraphTraversalSearch 2])
      [([(''ontology'', - 100)], 1), ([(''graph'', 3)], 1 / 2)]) = [(''ontology'', 1 / 10), (''graph'', 5 / 2)] \<and>
   (\<exists>delta. 1000 < dict_get (weights (update_weights (hybrid_init [OntologyLensSearch])
       [(''ontology'', delta)] 0.1)) ''ontology'' 1)"
  using hybrid_weights_floor[of "[OntologyLensSearch, GraphTraversalSearch 2]"
      "[([(''ontology'', - 100)], 1), ([(''graph'', 3)], 1 / 2)]" OntologyLensSearch "[]"]
  by (simp add: hybrid_init_def apply_updates_def update_weights_def update_weight_def dict_get_def)

subsection \<open>Precision at k\<close>

lemma precision_bounds: "0 \<le> precision_at_k rs rel k \<and> precision_at_k rs rel k \<le> 1"
proof -
  let ?top = "py_take k rs"
  have "length (filter (\<lambda>r. nid (node r) \<in> set rel) ?top) \<le> length ?top"
    by (rule length_filter_le)
  then have "real (length (filter (\<lambda>r. nid (node r) \<in> set rel) ?top)) \<le> real (length ?top)"
    by simp
  then show ?thesis
    by (simp add: precision_at_k_def Let_def divide_le_eq_1)
qed

text \<open>
  C5. For a non-negative \<open>k\<close>, \<open>precision_at_k\<close> takes the first \<open>k\<close> results, all of
  them when the list is shorter; it returns 0 when that prefix is empty, and otherwise the
  number of taken results whose node id is relevant, divided by the number of results
  taken, \<open>min k (length results)\<close>, not by \<open>k\<close>. The value lies in [0, 1].
\<close>

theorem precision_at_k_spec:
  "0 \<le> k \<Longrightarrow>
   precision_at_k results relevant k =
     (if take (nat k) results = [] then 0
      else real (length (filter (\<lambda>r. nid (node r) \<in> set relevant) (take (nat k) results)))
           / real (min (nat k) (length results))) \<and>
   0 \<le> precision_at_k results relevant k \<and> precision_at_k results relevant k \<le> 1"
  using precision_bounds[of results relevant k]
  by (simp add: py_take_def precision_at_k_def Let_def min.commute)

theorem precision_at_k_spec_witness:
  "(0::int) \<le> 5 \<and>
   precision_at_k
     [\<lparr>node = \<lparr>nid = ''a'', label = ''A'', kind = ''paper'', description = '''', tags = []\<rparr>,
        score = 1, strategy = ''graph''\<rparr>,
      \<lparr>node = \<lparr>nid = ''b'', label = ''B'', kind = ''paper'', description = '''', tags = []\<rparr>,
        score = 1 / 2, strategy = ''graph''\<rparr>] [''b'', ''c''] 5 = 1 / 2"
  using precision_at_k_spec[of 5
     "[\<lparr>node = \<lparr>nid = ''a'', label = ''A'', kind = ''paper'', description = '''', tags = []\<rparr>,
        score = 1, strategy = ''graph''\<rparr>,
      \<lparr>node = \<lparr>nid = ''b'', label = ''B'', kind = ''paper'', description = '''', tags = []\<rparr>,
        score = 1 / 2, strategy = ''graph''\<rparr>]" "[''b'', ''c'']"]
  by simp

subsection \<open>Lists and strings\<close>

lemma set_py_take: "set (py_take k xs) \<subseteq> set xs"
  by (auto simp: py_take_def dest: in_set_takeD)

lemma set_sort_desc: "set (sort_desc f xs) = set xs"
  by (simp add: sort_desc_def)

lemma contains_iff: "contains s sub \<longleftrightarrow> (\<exists>ps ss. s = ps @ sub @ ss)"
proof (induction s)
  case Nil then show ?case by auto
next
  case (Cons c cs)
  show ?case
  proof
    assume "contains (c # cs) sub"
    then consider "take (length sub) (c # cs) = sub" | "contains cs sub" by auto
    then show "\<exists>ps ss. c # cs = ps @ sub @ ss"
    proof cases
      case 1
      then have "c # cs = [] @ sub @ drop (length sub) (c # cs)"
        by (metis append_Nil append_take_drop_id)
      then show ?thesis by blast
    next
      case 2
      with Cons.IH obtain ps ss where "cs = ps @ sub @ ss" by blast
      then have "c # cs = (c # ps) @ sub @ ss" by simp
      then show ?thesis by blast
    qed
  next
    assume "\<exists>ps ss. c # cs = ps @ sub @ ss"
    then obtain ps ss where eq: "c # cs = ps @ sub @ ss" by blast
    show "contains (c # cs) sub"
    proof (cases ps)
      case Nil
      with eq have "take (length sub) (c # cs) = sub" by simp
      then show ?thesis by simp
    next
      case (Cons p ps')
      with eq have "cs = ps' @ sub @ ss" by simp
      with Cons.IH have "contains cs sub" by blast
      then show ?thesis by simp
    qed
  qed
qed

subsection \<open>The small graph\<close>

lemma add_node_rec:
  "add_node \<lparr>nodes = ns, hyperedges = hs, node_to_edges = m\<rparr> n =
     \<lparr>nodes = AList.update (nid n) n ns, hyperedges = hs, node_to_edges = setdefault m (nid n) []\<rparr>"
  by (simp add: add_node_def)

lemma add_hyperedge_rec:
  "add_hyperedge \<lparr>nodes = ns, hyperedges = hs, node_to_edges = m\<rparr> e =
     \<lparr>nodes = ns, hyperedges = AList.update (eid e) e hs,
      node_to_edges = fold (link_edge (eid e)) (node_ids e) m\<rparr>"
  by (simp add: add_hyperedge_def)

lemma demo_ids:
  "nid node_a = ''a''" "nid node_b = ''b''" "nid node_c = ''c''"
  "eid edge_t = ''t''" "eid edge_u = ''u''"
  "node_ids edge_t = [''a'', ''b'']" "node_ids edge_u = [''b'', ''c'', ''z'']"
  by (simp_all add: node_a_def node_b_def node_c_def edge_t_def edge_u_def)

lemma demo_tags:
  "tags node_a = [''DL'', ''tr'']" "tags node_b = [''bio'', ''dl'']" "tags node_c = [''dl'', ''ov'']"
  by (simp_all add: node_a_def node_b_def node_c_def)

lemma demo_graph_nodes:
  "add_node (add_node (add_node empty_graph node_a) node_b) node_c =
    \<lparr>nodes = [(''a'', node_a), (''b'', node_b), (''c'', node_c)], hyperedges = [],
      node_to_edges = [(''a'', []), (''b'', []), (''c'', [])]\<rparr>"
  by (simp add: empty_graph_def add_node_rec setdefault_def demo_ids)

lemma demo_graph_eq:
  "demo_graph =
     \<lparr>nodes = [(''a'', node_a), (''b'', node_b), (''c'', node_c)],
      hyperedges = [(''t'', edge_t), (''u'', edge_u)],
      node_to_edges = [(''a'', [''t'']), (''b'', [''t'', ''u'']), (''c'', [''u'']), (''z'', [''u''])]\<rparr>"
  by (simp add: demo_graph_def from_sources_def demo_graph_nodes add_hyperedge_rec link_edge_def
      set_add_def dict_get_def demo_ids)

lemma demo_all_nodes: "all_nodes demo_graph = [node_a, node_b, node_c]"
  by (simp add: demo_graph_eq all_nodes_def)

subsection \<open>Ontology-Lens strategy\<close>

lemma match_count_le: "match_count fs n \<le> length fs"
  by (simp add: match_count_def)

lemma ontology_results_sound:
  assumes "r \<in> set (ontology_results g q)"
  shows "node r \<in> set (all_nodes g) \<and> 0 < match_count (facets q) (node r) \<and>
         score r = real (match_count (facets q) (node r)) / real (length (facets q))"
  using assms by (auto simp: ontology_results_def Let_def List.map_filter_def split: if_splits)

lemma ontology_results_nodes:
  "map node (ontology_results g q) = filter (\<lambda>n. 0 < match_count (facets q) n) (all_nodes g)"
proof -
  have "map node (List.map_filter (\<lambda>n. if P n then Some (F n) else None) ns) = filter P ns"
    if "\<And>n. node (F n) = n" for P and F :: "node \<Rightarrow> search_result" and ns
    using that by (induction ns) (auto simp: List.map_filter_def)
  from this[of "\<lambda>n. \<lparr>node = n, score = real (match_count (facets q) n) / real (length (facets q)), strategy = ''ontology''\<rparr>" "\<lambda>n. match_count (facets q) n \<noteq> 0" "all_nodes g"]
  show ?thesis by (simp add: ontology_results_def Let_def)
qed

lemma facets_nonempty: "f \<in> set (facets q) \<Longrightarrow> f \<noteq> [] \<and> (\<exists>seg \<in> set (split_sep '' and '' q). f = lower (strip seg))"
  by (auto simp: facets_def lower_def)

text \<open>
  C8. The facets of a query are the segments between the occurrences of \<open>" and "\<close>,
  trimmed and lowercased, the empty ones left out. The match count of a node is the number
  of facets that some lowercased tag of the node contains as a contiguous substring; the
  results name exactly the nodes whose match count is not zero, each with the score
  match count / number of facets, and every returned score lies in (0, 1].
\<close>

theorem ontology_lens_scores:
  "(\<forall>f \<in> set (facets q). f \<noteq> [] \<and> (\<exists>seg \<in> set (split_sep '' and '' q). f = lower (strip seg))) \<and>
   match_count (facets q) n =
     length (filter (\<lambda>f. \<exists>t \<in> set (tags n). \<exists>ps ss. lower t = ps @ f @ ss) (facets q)) \<and>
   map node (ontology_results g q) = filter (\<lambda>n. 0 < match_count (facets q) n) (all_nodes g) \<and>
   (\<forall>r \<in> set (ontology_search g q limit).
      r \<in> set (ontology_results g q) \<and>
      0 < match_count (facets q) (node r) \<and>
      score r = real (match_count (facets q) (node r)) / real (length (facets q)) \<and>
      0 < score r \<and> score r \<le> 1)"
proof (intro conjI ballI)
  fix f assume "f \<in> set (facets q)"
  then show "f \<noteq> []" "\<exists>seg \<in> set (split_sep '' and '' q). f = lower (strip seg)"
    using facets_nonempty by blast+
next
  show "match_count (facets q) n =
     length (filter (\<lambda>f. \<exists>t \<in> set (tags n). \<exists>ps ss. lower t = ps @ f @ ss) (facets q))"
    by (simp add: match_count_def list_ex_iff contains_iff)
next
  show "map node (ontology_results g q) = filter (\<lambda>n. 0 < match_count (facets q) n) (all_nodes g)"
    by (rule ontology_results_nodes)
next
  fix r assume "r \<in> set (ontology_search g q limit)"
  then show r: "r \<in> set (ontology_results g q)"
    using set_py_take[of limit "sort_desc score (ontology_results g q)"]
    by (auto simp: ontology_search_def set_sort_desc)
  from ontology_results_sound[OF r]
  show m: "0 < match_count (facets q) (node r)"
    and s: "score r = real (match_count (facets q) (node r)) / real (length (facets q))"
    by simp_all
  have le: "match_count (facets q) (node r) \<le> length (facets q)" by (rule match_count_le)
  with m have pos: "0 < length (facets q)" by linarith
  from m pos show "0 < score r" unfolding s by simp
  from le pos show "score r \<le> 1" unfolding s by (simp add: divide_le_eq_1)
qed

lemma demo_facets: "facets ''dl and  Ov and '' = [''dl'', ''ov'']"
  by (simp add: facets_def strip_def is_space_def lower_def lower_char_def)

lemma demo_match_count:
  "match_count [''dl'', ''ov''] node_a = 1" "match_count [''dl'', ''ov''] node_b = 1"
  "match_count [''dl'', ''ov''] node_c = 2"
  by (simp_all add: match_count_def demo_tags lower_def lower_char_def)

lemma demo_ontology_results:
  "ontology_results demo_graph ''dl and  Ov and '' =
     [\<lparr>node = node_a, score = 1 / 2, strategy = ''ontology''\<rparr>,
      \<lparr>node = node_b, score = 1 / 2, strategy = ''ontology''\<rparr>,
      \<lparr>node = node_c, score = 1, strategy = ''ontology''\<rparr>]"
  by (simp add: ontology_results_def demo_facets demo_all_nodes demo_match_count List.map_filter_def)

lemma demo_ontology_search:
  "ontology_search demo_graph ''dl and  Ov and '' 2 =
     [\<lparr>node = node_c, score = 1, strategy = ''ontology''\<rparr>,
      \<lparr>node = node_a, score = 1 / 2, strategy = ''ontology''\<rparr>]"
  by (simp add: ontology_search_def demo_ontology_results sort_desc_def py_take_def)

theorem ontology_lens_scores_witness:
  "facets ''dl and  Ov and '' = [''dl'', ''ov''] \<and>
   ontology_search demo_graph ''dl and  Ov and '' 2 =
     [\<lparr>node = node_c, score = 1, strategy = ''ontology''\<rparr>,
      \<lparr>node = node_a, score = 1 / 2, strategy = ''ontology''\<rparr>] \<and>
   match_count (facets ''dl and  Ov and '') node_c = 2 \<and>
   score \<lparr>node = node_c, score = 1, strategy = ''ontology''\<rparr> \<le> 1"
proof -
  let ?r = "\<lparr>node = node_c, score = 1, strategy = ''ontology''\<rparr>"
  have "?r \<in> set (ontology_search demo_graph ''dl and  Ov and '' 2)"
    by (simp add: demo_ontology_search)
  with ontology_lens_scores[of "''dl and  Ov and ''" node_c demo_graph 2]
  have "0 < match_count (facets ''dl and  Ov and '') (node ?r) \<and> score ?r \<le> 1" by blast
  then show ?thesis
    by (simp add: demo_facets demo_ontology_search demo_match_count)
qed

subsection \<open>Vector strategy\<close>

lemma dict_get_update: "dict_get (AList.update k v d) k' x = (if k' = k then v else dict_get d k' x)"
  by (simp add: dict_get_def update_conv')

lemma vector_score_fold:
  "fold (\<lambda>t sc. let tf = c t in if tf \<noteq> (0::nat) then sc + h tf t else sc) ts acc =
   acc + (\<Sum>t\<leftarrow>ts. if 0 < c t then h (c t) t else (0::real))"
  by (induction ts arbitrary: acc) (simp_all add: Let_def)

lemma vector_score_sum:
  "vector_score idf n ts =
   (\<Sum>t\<leftarrow>ts. if 0 < count_list (tokenize (text_signature n)) t
           then (1 + ln (real (count_list (tokenize (text_signature n)) t))) * dict_get idf t 0 else 0)"
  unfolding vector_score_def Let_def
  using vector_score_fold[of "count_list (tokenize (text_signature n))" "\<lambda>tf t. (1 + ln (real tf)) * dict_get idf t 0" ts 0]
  by (simp add: Let_def)

lemma count_terms_get:
  "distinct ts \<Longrightarrow> dict_get (fold count_term ts m) t 0 = dict_get m t 0 + (if t \<in> set ts then 1 else 0)"
  by (induction ts arbitrary: m) (auto simp: count_term_def dict_get_update)

lemma count_terms_keys: "fst ` set (fold count_term ts m) = fst ` set m \<union> set ts"
  by (induction ts arbitrary: m) (auto simp: count_term_def dom_update)

lemma tdf_fold_get:
  "dict_get (fold (\<lambda>n m. fold count_term (remdups (tokenize (text_signature n))) m) ns m) t 0 =
   dict_get m t 0 + doc_frequency ns t"
  by (induction ns arbitrary: m) (simp_all add: doc_frequency_def count_terms_get)

lemma tdf_fold_keys:
  "fst ` set (fold (\<lambda>n m. fold count_term (remdups (tokenize (text_signature n))) m) ns m) =
   fst ` set m \<union> (\<Union>n \<in> set ns. set (tokenize (text_signature n)))"
  by (induction ns arbitrary: m) (auto simp: count_terms_keys)

lemma doc_frequency_zero: "doc_frequency ns t = 0 \<longleftrightarrow> t \<notin> (\<Union>n \<in> set ns. set (tokenize (text_signature n)))"
  by (auto simp: doc_frequency_def filter_empty_conv)

lemma map_of_None_iff: "map_of d k = None \<longleftrightarrow> k \<notin> fst ` set d"
  by (simp add: map_of_eq_None_iff)

lemma term_doc_frequency_lookup:
  "map_of (term_doc_frequency ns) t = (if doc_frequency ns t = 0 then None else Some (doc_frequency ns t))"
proof (cases "doc_frequency ns t = 0")
  case True
  then have "t \<notin> fst ` set (term_doc_frequency ns)"
    by (simp add: term_doc_frequency_def tdf_fold_keys doc_frequency_zero)
  with True show ?thesis by (simp add: map_of_eq_None_iff)
next
  case False
  then have "t \<in> fst ` set (term_doc_frequency ns)"
    by (simp add: term_doc_frequency_def tdf_fold_keys doc_frequency_zero)
  then obtain v where v: "map_of (term_doc_frequency ns) t = Some v"
    by (metis map_of_eq_None_iff not_Some_eq)
  have "dict_get (term_doc_frequency ns) t 0 = doc_frequency ns t"
    using tdf_fold_get[of ns "[]" t] by (simp add: term_doc_frequency_def dict_get_def)
  with v have "v = doc_frequency ns t" by (simp add: dict_get_def)
  with v False show ?thesis by simp
qed

lemma build_index_lookup:
  "map_of (build_index ns) t =
     (if doc_frequency ns t = 0 then None
      else Some (ln ((real (length ns) + 1) / (real (doc_frequency ns t) + 1)) + 1))"
  by (simp add: build_index_def Let_def map_of_map term_doc_frequency_lookup)

lemma filter_sort_desc: "filter P (sort_desc f xs) = sort_desc f (filter P xs)"
  by (simp add: sort_desc_def filter_sort)

lemma in_set_py_take: "x \<in> set (py_take k xs) \<Longrightarrow> x \<in> set xs"
  using set_py_take[of k xs] by blast

text \<open>
  C2. The score of a node for a list of query terms is the sum, over the terms \<open>t\<close> whose
  count \<open>tf\<close> in the tokenized signature of the node is positive, of
  \<open>(1 + ln tf) * idf t\<close>, a term missing from the idf table counting with \<open>idf = 0\<close>.
  The table built from \<open>N\<close> nodes holds \<open>ln ((N + 1) / (df + 1)) + 1\<close> for every term
  that occurs in \<open>df > 0\<close> of the signatures, and nothing else. A search uses the table it
  finds, or builds it when it finds none; it returns the results with a positive score,
  sorted, and only then truncated to the limit.
\<close>

theorem vector_score_spec:
  "vector_score idf n ts =
     (\<Sum>t\<leftarrow>ts. if 0 < count_list (tokenize (text_signature n)) t
           then (1 + ln (real (count_list (tokenize (text_signature n)) t))) * dict_get idf t 0 else 0) \<and>
   map_of (build_index ns) t =
     (if doc_frequency ns t = 0 then None
      else Some (ln ((real (length ns) + 1) / (real (doc_frequency ns t) + 1)) + 1)) \<and>
   snd (vector_search idf0 g q limit) = (if idf0 = [] then build_index (all_nodes g) else idf0) \<and>
   fst (vector_search idf0 g q limit) =
     py_take limit (sort_desc score (filter (\<lambda>r. 0 < score r)
        (vector_scored (snd (vector_search idf0 g q limit)) g q))) \<and>
   (\<forall>r \<in> set (fst (vector_search idf0 g q limit)). 0 < score r \<and>
      score r = vector_score (snd (vector_search idf0 g q limit)) (node r) (tokenize q))"
proof (intro conjI ballI)
  show "vector_score idf n ts =
     (\<Sum>t\<leftarrow>ts. if 0 < count_list (tokenize (text_signature n)) t
           then (1 + ln (real (count_list (tokenize (text_signature n)) t))) * dict_get idf t 0 else 0)"
    by (rule vector_score_sum)
  show "map_of (build_index ns) t =
     (if doc_frequency ns t = 0 then None
      else Some (ln ((real (length ns) + 1) / (real (doc_frequency ns t) + 1)) + 1))"
    by (rule build_index_lookup)
  show s: "snd (vector_search idf0 g q limit) = (if idf0 = [] then build_index (all_nodes g) else idf0)"
    by (simp add: vector_search_def Let_def)
  show f: "fst (vector_search idf0 g q limit) =
     py_take limit (sort_desc score (filter (\<lambda>r. 0 < score r)
        (vector_scored (snd (vector_search idf0 g q limit)) g q)))"
    unfolding s by (simp add: vector_search_def Let_def filter_sort_desc vector_scored_def)
  fix r assume "r \<in> set (fst (vector_search idf0 g q limit))"
  then have "r \<in> set (sort_desc score (filter (\<lambda>r. 0 < score r)
      (vector_scored (snd (vector_search idf0 g q limit)) g q)))"
    unfolding f by (rule in_set_py_take)
  then have "r \<in> set (filter (\<lambda>r. 0 < score r) (vector_scored (snd (vector_search idf0 g q limit)) g q))"
    by (simp add: sort_desc_def)
  then show "0 < score r" "score r = vector_score (snd (vector_search idf0 g q limit)) (node r) (tokenize q)"
    by (auto simp: vector_scored_def)
qed

lemma demo_tokens:
  "tokenize (text_signature node_a) = [''att'', ''p'', ''tr'', ''net'', ''dl'', ''tr'']"
  "tokenize (text_signature node_b) = [''fold'', ''p'', ''bio'', ''bio'', ''dl'']"
  "tokenize (text_signature node_c) = [''wiki'', ''w'', ''dl'', ''dl'', ''ov'']"
  by (simp_all add: tokenize_def text_signature_def node_a_def node_b_def node_c_def
      strip_def is_space_def lower_def lower_char_def)

lemma demo_query_tokens: "tokenize '' DL '' = [''dl'']"
  by (simp add: tokenize_def strip_def is_space_def lower_def lower_char_def)

lemma demo_doc_frequency: "doc_frequency [node_a, node_b, node_c] ''dl'' = 3"
  by (simp add: doc_frequency_def demo_tokens)

theorem vector_score_spec_witness:
  "snd (vector_search [] demo_graph '' DL '' 2) = build_index [node_a, node_b, node_c] \<and>
   dict_get (build_index [node_a, node_b, node_c]) ''dl'' 0 = 1 \<and>
   fst (vector_search [] demo_graph '' DL '' 2) =
     [\<lparr>node = node_c, score = 1 + ln 2, strategy = ''vector''\<rparr>,
      \<lparr>node = node_a, score = 1, strategy = ''vector''\<rparr>]"
proof -
  let ?idf = "build_index [node_a, node_b, node_c]"
  note c2 = vector_score_spec[of ?idf node_c "[''dl'']" "[node_a, node_b, node_c]" "''dl''" "[]" demo_graph "'' DL ''" 2]
  have idf: "dict_get ?idf ''dl'' 0 = 1"
    using c2 by (simp add: dict_get_def demo_doc_frequency)
  have sc: "vector_score ?idf node_a [''dl''] = 1" "vector_score ?idf node_b [''dl''] = 1"
    "vector_score ?idf node_c [''dl''] = 1 + ln 2"
    by (simp_all add: vector_score_def demo_tokens idf)
  have pos: "0 < 1 + ln (2::real)"
    by (simp add: add_pos_pos)
  have s: "snd (vector_search [] demo_graph '' DL '' 2) = ?idf"
    by (simp add: vector_search_def Let_def demo_all_nodes)
  have f: "fst (vector_search [] demo_graph '' DL '' 2) =
     [\<lparr>node = node_c, score = 1 + ln 2, strategy = ''vector''\<rparr>,
      \<lparr>node = node_a, score = 1, strategy = ''vector''\<rparr>]"
    using pos by (simp add: vector_search_def Let_def demo_all_nodes demo_query_tokens sc sort_desc_def py_take_def)
  from s idf f show ?thesis by simp
qed

subsection \<open>The invariant of the knowledge graph\<close>

lemma keys_setdefault: "fst ` set (setdefault d k v) = insert k (fst ` set d)"
  by (auto simp: setdefault_def dom_update map_of_eq_None_iff split: option.splits
      dest: map_of_SomeD intro: rev_image_eqI)

lemma distinct_setdefault: "distinct (map fst d) \<Longrightarrow> distinct (map fst (setdefault d k v))"
  by (simp add: setdefault_def distinct_update split: option.splits)

lemma set_setdefault: "set (setdefault d k v) \<subseteq> insert (k, v) (set d)"
  using set_update_subset[of k v d] by (auto simp: setdefault_def split: option.splits)

lemma graph_inv_empty: "graph_inv empty_graph"
  by (simp add: graph_inv_def empty_graph_def)

lemma graph_inv_add_node:
  assumes "graph_inv g"
  shows "graph_inv (add_node g n)"
proof -
  from assms have d: "distinct (map fst (nodes g))" "distinct (map fst (hyperedges g))"
      "distinct (map fst (node_to_edges g))"
    and ids: "\<forall>(k, m) \<in> set (nodes g). nid m = k"
    and idx: "\<forall>(k, es) \<in> set (node_to_edges g). distinct es \<and> set es \<subseteq> fst ` set (hyperedges g)"
    by (simp_all add: graph_inv_def)
  have 1: "distinct (map fst (AList.update (nid n) n (nodes g)))"
    using d(1) by (rule distinct_update)
  have 2: "distinct (map fst (setdefault (node_to_edges g) (nid n) []))"
    using d(3) by (rule distinct_setdefault)
  have 3: "\<forall>(k, m) \<in> set (AList.update (nid n) n (nodes g)). nid m = k"
    using ids set_update_subset[of "nid n" n "nodes g"] by blast
  have 4: "\<forall>(k, es) \<in> set (setdefault (node_to_edges g) (nid n) []).
             distinct es \<and> set es \<subseteq> fst ` set (hyperedges g)"
    using idx set_setdefault[of "node_to_edges g" "nid n" "[]"] by fastforce
  from 1 2 3 4 d(2) show ?thesis
    by (simp add: graph_inv_def add_node_def)
qed

lemma index_ok_mono: "index_ok H m \<Longrightarrow> H \<subseteq> H' \<Longrightarrow> index_ok H' m"
  unfolding index_ok_def by blast

lemma dict_get_in_set: "map_of d k = Some v \<Longrightarrow> (k, dict_get d k x) \<in> set d"
  by (simp add: dict_get_def map_of_SomeD)

lemma index_ok_link_edge:
  assumes "index_ok H m" "e \<in> H"
  shows "index_ok H (link_edge e k m)"
proof -
  let ?old = "dict_get m k []"
  have old: "distinct ?old \<and> set ?old \<subseteq> H"
  proof (cases "map_of m k")
    case None then show ?thesis by (simp add: dict_get_def)
  next
    case (Some es)
    then have "(k, es) \<in> set m" by (rule map_of_SomeD)
    with assms(1) Some show ?thesis by (auto simp: index_ok_def dict_get_def)
  qed
  with assms(2) have new: "distinct (set_add e ?old) \<and> set (set_add e ?old) \<subseteq> H"
    by (auto simp: set_add_def)
  have "distinct (map fst (AList.update k (set_add e ?old) m))"
    using assms(1) by (simp add: index_ok_def distinct_update)
  moreover have "\<forall>(k', es) \<in> set (AList.update k (set_add e ?old) m). distinct es \<and> set es \<subseteq> H"
    using assms(1) new set_update_subset[of k "set_add e ?old" m]
    unfolding index_ok_def by blast
  ultimately show ?thesis by (simp add: index_ok_def link_edge_def)
qed

lemma index_ok_fold_link:
  "index_ok H m \<Longrightarrow> e \<in> H \<Longrightarrow> index_ok H (fold (link_edge e) ks m)"
  by (induction ks arbitrary: m) (simp_all add: index_ok_link_edge)

lemma graph_inv_index: "graph_inv g \<longleftrightarrow>
  distinct (map fst (nodes g)) \<and> distinct (map fst (hyperedges g)) \<and>
  (\<forall>(k, n) \<in> set (nodes g). nid n = k) \<and> index_ok (fst ` set (hyperedges g)) (node_to_edges g)"
  by (auto simp: graph_inv_def index_ok_def)

lemma graph_inv_add_hyperedge:
  assumes "graph_inv g"
  shows "graph_inv (add_hyperedge g e)"
proof -
  let ?H = "fst ` set (AList.update (eid e) e (hyperedges g))"
  have H: "?H = insert (eid e) (fst ` set (hyperedges g))"
    by (simp add: dom_update)
  from assms have "index_ok (fst ` set (hyperedges g)) (node_to_edges g)"
    by (simp add: graph_inv_index)
  then have "index_ok ?H (node_to_edges g)"
    by (rule index_ok_mono) (auto simp: H)
  then have "index_ok ?H (fold (link_edge (eid e)) (node_ids e) (node_to_edges g))"
    by (rule index_ok_fold_link) (simp add: H)
  moreover have "distinct (map fst (AList.update (eid e) e (hyperedges g)))"
    using assms by (simp add: graph_inv_index distinct_update)
  ultimately show ?thesis
    using assms by (simp add: graph_inv_index add_hyperedge_def)
qed

lemma built_graph_inv: "built g \<Longrightarrow> graph_inv g"
  by (induction rule: built.induct)
     (simp_all add: graph_inv_empty graph_inv_add_node graph_inv_add_hyperedge)

lemma built_fold_nodes: "built g \<Longrightarrow> built (fold (\<lambda>n h. add_node h n) ns g)"
  by (induction ns arbitrary: g) (simp_all add: built_node)

lemma built_fold_edges: "built g \<Longrightarrow> built (fold (\<lambda>e h. add_hyperedge h e) es g)"
  by (induction es arbitrary: g) (simp_all add: built_edge)

lemma built_fold_sources:
  "built g \<Longrightarrow> built (fold (\<lambda>(ns, es) g. fold (\<lambda>e h. add_hyperedge h e) es (fold (\<lambda>n h. add_node h n) ns g)) srcs g)"
proof (induction srcs arbitrary: g)
  case Nil then show ?case by simp
next
  case (Cons s srcs)
  obtain ns es where s: "s = (ns, es)" by (cases s)
  have "built (fold (\<lambda>e h. add_hyperedge h e) es (fold (\<lambda>n h. add_node h n) ns g))"
    using Cons.prems by (simp add: built_fold_nodes built_fold_edges)
  from Cons.IH[OF this] show ?case by (simp add: s)
qed

lemma built_from_sources: "built (from_sources srcs)"
  unfolding from_sources_def by (rule built_fold_sources) (rule built_empty)

subsection \<open>Graph-Traversal strategy: the loops\<close>

lemma bind_Inr [simp]: "bind (Inr x) f = f x"
  by (simp add: bind_def)

lemma bind_Inl [simp]: "bind (Inl e) f = Inl e"
  by (simp add: bind_def)

lemma neighbors_of_edges_inv:
  "set es \<subseteq> fst ` set (hyperedges g) \<Longrightarrow>
   neighbors_of_edges g k es =
     Inr (concat (map (\<lambda>e. case map_of (hyperedges g) e of None \<Rightarrow> [] | Some edge \<Rightarrow> related_nodes g k edge) es))"
proof (induction es)
  case Nil then show ?case by simp
next
  case (Cons e es)
  then have "e \<in> fst ` set (hyperedges g)" by simp
  then obtain edge where "map_of (hyperedges g) e = Some edge"
    by (metis map_of_eq_None_iff not_Some_eq)
  with Cons show ?case by (simp add: subscript_def)
qed

lemma index_entry:
  assumes "graph_inv g"
  shows "set (dict_get (node_to_edges g) k []) \<subseteq> fst ` set (hyperedges g)"
proof (cases "map_of (node_to_edges g) k")
  case None then show ?thesis by (simp add: dict_get_def)
next
  case (Some es)
  then have "(k, es) \<in> set (node_to_edges g)" by (rule map_of_SomeD)
  with assms Some show ?thesis by (auto simp: graph_inv_def dict_get_def)
qed

lemma neighbors_inv: "graph_inv g \<Longrightarrow> neighbors g k = Inr (neighbor_nodes g k)"
  unfolding neighbors_def neighbor_nodes_def
  by (rule neighbors_of_edges_inv) (rule index_entry)

lemma dd_read_again: "dd_read p k = (cur, p1) \<Longrightarrow> fst (dd_read p1 k) = cur"
  by (auto simp: dd_read_def update_conv' split: option.splits)

lemma visit_push:
  "visit sc nb (p, nf) =
     (if sc * 0.6 > 0.01 then (add_push (nid nb, sc * 0.6) p, nf @ [(nid nb, sc * 0.6)]) else (p, nf))"
proof (cases "dd_read p (nid nb)")
  case (Pair cur p1)
  from dd_read_again[OF Pair] Pair show ?thesis
    by (simp add: visit_def add_push_def Let_def)
qed

lemma fold_visit:
  "fold (visit sc) nbs (p, nf) =
     (fold add_push (map (\<lambda>nb. (nid nb, sc * 0.6)) (if sc * 0.6 > 0.01 then nbs else [])) p,
      nf @ map (\<lambda>nb. (nid nb, sc * 0.6)) (if sc * 0.6 > 0.01 then nbs else []))"
proof (induction nbs arbitrary: p nf)
  case Nil then show ?case by simp
next
  case (Cons nb nbs)
  show ?case by (simp add: visit_push Cons.IH)
qed

lemma expand_inv:
  assumes "graph_inv g"
  shows "expand g fr (p, nf) = Inr (fold add_push (pushes g fr) p, nf @ pushes g fr)"
proof (induction fr arbitrary: p nf)
  case Nil then show ?case by (simp add: pushes_def)
next
  case (Cons a fr)
  obtain k sc where a: "a = (k, sc)" by (cases a)
  show ?case
    by (simp add: a neighbors_inv[OF assms] fold_visit Cons.IH pushes_def)
qed

lemma propagate_inv:
  assumes "graph_inv g"
  shows "propagate g d fr p = Inr (fold add_push (all_pushes g d fr) p)"
proof (induction d arbitrary: fr p)
  case 0 then show ?case by simp
next
  case (Suc d)
  show ?case by (simp add: expand_inv[OF assms] Suc.IH)
qed

lemma map_of_dict_get:
  "map_of d k = (if k \<in> fst ` set d then Some (dict_get d k x) else None)"
  by (cases "map_of d k") (auto simp: dict_get_def map_of_eq_None_iff dest: map_of_SomeD intro: rev_image_eqI)

lemma dict_get_absent: "k \<notin> fst ` set d \<Longrightarrow> dict_get d k x = x"
  by (simp add: dict_get_def map_of_eq_None_iff[symmetric])

lemma add_push_unfold:
  "add_push (k, v) p =
     (case map_of p k of
        None \<Rightarrow> if v > 0 then AList.update k (max 0 v) (AList.update k 0 p) else AList.update k 0 p
      | Some c \<Rightarrow> if v > c then AList.update k (max c v) p else p)"
  by (simp add: add_push_def dd_read_def split: option.splits)

lemma add_push_keys: "fst ` set (add_push (k, v) p) = insert k (fst ` set p)"
proof (cases "map_of p k")
  case None
  then show ?thesis by (simp add: add_push_unfold dom_update)
next
  case (Some c)
  then have "(k, c) \<in> set p" by (rule map_of_SomeD)
  then have "k \<in> fst ` set p" by (rule rev_image_eqI) simp
  with Some show ?thesis by (auto simp: add_push_unfold dom_update)
qed

lemma add_push_distinct: "distinct (map fst p) \<Longrightarrow> distinct (map fst (add_push kv p))"
  by (cases kv) (auto simp: add_push_unfold distinct_update split: option.splits)

lemma add_push_get:
  "dict_get (add_push (k, v) p) k' 0 = (if k' = k then max (dict_get p k 0) v else dict_get p k' 0)"
  by (auto simp: add_push_unfold dict_get_def update_conv' split: option.splits)

lemma fold_add_push_keys: "fst ` set (fold add_push L p) = fst ` set p \<union> fst ` set L"
proof (induction L arbitrary: p)
  case Nil then show ?case by simp
next
  case (Cons a L)
  obtain k v where a: "a = (k, v)" by (cases a)
  show ?case by (simp add: a Cons.IH add_push_keys)
qed

lemma fold_add_push_distinct: "distinct (map fst p) \<Longrightarrow> distinct (map fst (fold add_push L p))"
  by (induction L arbitrary: p) (simp_all add: add_push_distinct)

lemma Max_insert_max:
  "finite S \<Longrightarrow> Max (insert (max a v) S) = Max (insert (a::real) (insert v S))"
  by (cases "S = {}") (simp_all add: max.assoc)

lemma fold_add_push_get:
  "dict_get (fold add_push L p) k 0 = Max (insert (dict_get p k 0) {v. (k, v) \<in> set L})"
proof (induction L arbitrary: p)
  case Nil then show ?case by simp
next
  case (Cons a L)
  obtain k' v where a: "a = (k', v)" by (cases a)
  have fin: "finite {v. (k, v) \<in> set L}"
    by (rule finite_subset[of _ "snd ` set L"]) (auto intro: rev_image_eqI)
  show ?case
  proof (cases "k' = k")
    case True
    have "{w. (k, w) \<in> set (a # L)} = insert v {w. (k, w) \<in> set L}"
      by (auto simp: a True)
    moreover have "Max (insert (max (dict_get p k 0) v) {w. (k, w) \<in> set L}) =
        Max (insert (dict_get p k 0) (insert v {w. (k, w) \<in> set L}))"
      using fin by (rule Max_insert_max)
    ultimately show ?thesis by (simp add: a True Cons.IH add_push_get)
  next
    case False
    then have "{w. (k, w) \<in> set (a # L)} = {w. (k, w) \<in> set L}" by (auto simp: a)
    with False show ?thesis by (simp add: a Cons.IH add_push_get)
  qed
qed

subsection \<open>Graph-Traversal strategy: the dictionaries\<close>

lemma base_scores_fold_set:
  "set (fold (\<lambda>n base. if is_seed q n then AList.update (nid n) (1::real) base else base) ns b)
     \<subseteq> set b \<union> {(nid n, 1) |n. n \<in> set ns \<and> is_seed q n}"
proof (induction ns arbitrary: b)
  case Nil then show ?case by simp
next
  case (Cons n ns)
  show ?case
  proof (cases "is_seed q n")
    case True
    from Cons.IH[of "AList.update (nid n) 1 b"] set_update_subset[of "nid n" 1 b] True
    show ?thesis by auto
  next
    case False
    from Cons.IH[of b] False show ?thesis by auto
  qed
qed

lemma base_scores_fold_keys:
  "fst ` set (fold (\<lambda>n base. if is_seed q n then AList.update (nid n) (1::real) base else base) ns b)
     = fst ` set b \<union> {nid n |n. n \<in> set ns \<and> is_seed q n}"
  by (induction ns arbitrary: b) (auto simp: dom_update)

lemma base_scores_fold_distinct:
  "distinct (map fst b) \<Longrightarrow>
   distinct (map fst (fold (\<lambda>n base. if is_seed q n then AList.update (nid n) (1::real) base else base) ns b))"
  by (induction ns arbitrary: b) (simp_all add: distinct_update)

lemma base_scores_keys: "k \<in> fst ` set (base_scores g q) \<longleftrightarrow> seeded g q k"
  unfolding base_scores_def base_scores_fold_keys seeded_def by auto

lemma base_scores_distinct: "distinct (map fst (base_scores g q))"
  unfolding base_scores_def by (rule base_scores_fold_distinct) simp

lemma base_scores_values: "(k, v) \<in> set (base_scores g q) \<Longrightarrow> v = 1"
  using base_scores_fold_set[of q "all_nodes g" "[]"] unfolding base_scores_def by auto

lemma base_scores_set: "(k, v) \<in> set (base_scores g q) \<longleftrightarrow> seeded g q k \<and> v = 1"
proof
  assume a: "(k, v) \<in> set (base_scores g q)"
  then have "k \<in> fst ` set (base_scores g q)" by (rule rev_image_eqI) simp
  with a show "seeded g q k \<and> v = 1" by (simp add: base_scores_keys base_scores_values)
next
  assume a: "seeded g q k \<and> v = 1"
  then have "k \<in> fst ` set (base_scores g q)" by (simp add: base_scores_keys)
  then obtain w where w: "(k, w) \<in> set (base_scores g q)" by auto
  with base_scores_values[OF w] a show "(k, v) \<in> set (base_scores g q)" by simp
qed

lemma base_scores_get: "dict_get (base_scores g q) k 0 = (if seeded g q k then 1 else 0)"
proof (cases "seeded g q k")
  case True
  then have "(k, 1) \<in> set (base_scores g q)" by (simp add: base_scores_set)
  then have "map_of (base_scores g q) k = Some 1"
    using base_scores_distinct by (simp add: map_of_eq_Some_iff)
  with True show ?thesis by (simp add: dict_get_def)
next
  case False
  then have "k \<notin> fst ` set (base_scores g q)" by (simp add: base_scores_keys)
  with False show ?thesis by (simp add: dict_get_absent)
qed

lemma plus_fold_keys:
  "fst ` set (fold (\<lambda>(k, sc) c. AList.update k (dict_get c k 0 + sc) c) L (c::(string \<times> real) list))
     = fst ` set c \<union> fst ` set L"
proof (induction L arbitrary: c)
  case Nil then show ?case by simp
next
  case (Cons a L)
  obtain k' v where a: "a = (k', v)" by (cases a)
  show ?case by (simp add: a Cons.IH dom_update)
qed

lemma plus_fold_distinct:
  "distinct (map fst c) \<Longrightarrow>
   distinct (map fst (fold (\<lambda>(k, sc) c. AList.update k (dict_get c k 0 + sc) c) L (c::(string \<times> real) list)))"
  by (induction L arbitrary: c) (auto simp: distinct_update)

lemma plus_fold_get:
  "distinct (map fst L) \<Longrightarrow>
   dict_get (fold (\<lambda>(k, sc) c. AList.update k (dict_get c k 0 + sc) c) L c) k (0::real)
     = dict_get c k 0 + dict_get L k 0"
proof (induction L arbitrary: c)
  case Nil then show ?case by (simp add: dict_get_def)
next
  case (Cons a L)
  obtain k' v where a: "a = (k', v)" by (cases a)
  from Cons.prems have d: "distinct (map fst L)" and nk: "k' \<notin> fst ` set L" by (simp_all add: a)
  from nk have "dict_get L k' 0 = (0::real)" by (rule dict_get_absent)
  then show ?case
    by (simp add: a Cons.IH[OF d] dict_get_update) (simp add: dict_get_def)
qed

lemma max_fold_keys:
  "fst ` set (fold (\<lambda>(k, sc) c. AList.update k (max (dict_get c k 0) sc) c) L (c::(string \<times> real) list))
     = fst ` set c \<union> fst ` set L"
proof (induction L arbitrary: c)
  case Nil then show ?case by simp
next
  case (Cons a L)
  obtain k' v where a: "a = (k', v)" by (cases a)
  show ?case by (simp add: a Cons.IH dom_update)
qed

lemma max_fold_distinct:
  "distinct (map fst c) \<Longrightarrow>
   distinct (map fst (fold (\<lambda>(k, sc) c. AList.update k (max (dict_get c k 0) sc) c) L (c::(string \<times> real) list)))"
  by (induction L arbitrary: c) (auto simp: distinct_update)

lemma max_fold_get:
  "dict_get (fold (\<lambda>(k, sc) c. AList.update k (max (dict_get c k 0) sc) c) L c) k (0::real)
     = Max (insert (dict_get c k 0) {v. (k, v) \<in> set L})"
proof (induction L arbitrary: c)
  case Nil then show ?case by simp
next
  case (Cons a L)
  obtain k' v where a: "a = (k', v)" by (cases a)
  have fin: "finite {v. (k, v) \<in> set L}"
    by (rule finite_subset[of _ "snd ` set L"]) (auto intro: rev_image_eqI)
  show ?case
  proof (cases "k' = k")
    case True
    have "{w. (k, w) \<in> set (a # L)} = insert v {w. (k, w) \<in> set L}"
      by (auto simp: a True)
    moreover have "Max (insert (max (dict_get c k 0) v) {w. (k, w) \<in> set L}) =
        Max (insert (dict_get c k 0) (insert v {w. (k, w) \<in> set L}))"
      using fin by (rule Max_insert_max)
    ultimately show ?thesis by (simp add: a True Cons.IH dict_get_update)
  next
    case False
    then have "{w. (k, w) \<in> set (a # L)} = {w. (k, w) \<in> set L}" by (auto simp: a)
    with False show ?thesis by (simp add: a Cons.IH dict_get_update)
  qed
qed

lemma combine_keys: "fst ` set (combine b p) = fst ` set b \<union> fst ` set p"
  by (simp add: combine_def max_fold_keys plus_fold_keys)

lemma combine_distinct: "distinct (map fst (combine b p))"
  unfolding combine_def by (rule max_fold_distinct, rule plus_fold_distinct) simp

lemma combine_get:
  "distinct (map fst b) \<Longrightarrow>
   dict_get (combine b p) k 0 = Max (insert (dict_get b k 0) {v. (k, v) \<in> set p})"
  by (simp add: combine_def max_fold_get plus_fold_get) (simp add: dict_get_def)

lemma set_map_filter: "set (List.map_filter f xs) = {y. \<exists>x \<in> set xs. f x = Some y}"
  by (induction xs) (auto simp: List.map_filter_simps split: option.splits)

lemma related_nodes_mem:
  "nb \<in> set (related_nodes g k edge) \<longleftrightarrow>
     (\<exists>r \<in> set (node_ids edge). r \<noteq> k \<and> map_of (nodes g) r = Some nb)"
  unfolding related_nodes_def set_map_filter by (auto split: if_splits)

lemma neighbor_nodes_mem:
  "nb \<in> set (neighbor_nodes g k) \<longleftrightarrow>
     (\<exists>e \<in> set (dict_get (node_to_edges g) k []). \<exists>edge. map_of (hyperedges g) e = Some edge \<and>
        (\<exists>r \<in> set (node_ids edge). r \<noteq> k \<and> map_of (nodes g) r = Some nb))"
proof -
  have one: "nb \<in> set (case map_of (hyperedges g) e of None \<Rightarrow> [] | Some edge \<Rightarrow> related_nodes g k edge)
      \<longleftrightarrow> (\<exists>edge. map_of (hyperedges g) e = Some edge \<and>
        (\<exists>r \<in> set (node_ids edge). r \<noteq> k \<and> map_of (nodes g) r = Some nb))" for e
    by (cases "map_of (hyperedges g) e") (simp_all add: related_nodes_mem)
  have "nb \<in> set (neighbor_nodes g k) \<longleftrightarrow>
      (\<exists>e \<in> set (dict_get (node_to_edges g) k []).
         nb \<in> set (case map_of (hyperedges g) e of None \<Rightarrow> [] | Some edge \<Rightarrow> related_nodes g k edge))"
    by (simp add: neighbor_nodes_def)
  then show ?thesis by (simp only: one)
qed

lemma stored_node_id:
  assumes "graph_inv g" "map_of (nodes g) r = Some n"
  shows "nid n = r" "r \<in> fst ` set (nodes g)"
proof -
  from assms(2) have m: "(r, n) \<in> set (nodes g)" by (rule map_of_SomeD)
  with assms(1) show "nid n = r" by (auto simp: graph_inv_def)
  from m show "r \<in> fst ` set (nodes g)" by (rule rev_image_eqI) simp
qed

lemma neighbor_registered:
  assumes "graph_inv g" "nb \<in> set (neighbor_nodes g k)"
  shows "nid nb \<in> fst ` set (nodes g)"
proof -
  from assms(2) obtain r where "map_of (nodes g) r = Some nb"
    unfolding neighbor_nodes_mem by blast
  from stored_node_id[OF assms(1) this] show ?thesis by simp
qed

lemma all_nodes_registered:
  assumes "graph_inv g" "n \<in> set (all_nodes g)"
  shows "nid n \<in> fst ` set (nodes g)"
proof -
  from assms(2) obtain k where m: "(k, n) \<in> set (nodes g)" by (auto simp: all_nodes_def)
  with assms(1) have "nid n = k" by (auto simp: graph_inv_def)
  with m show ?thesis by (auto intro: rev_image_eqI)
qed

lemma concat_map_mem:
  "(k, v) \<in> set (concat (map (\<lambda>(m, sc). map (\<lambda>nb. (f nb, h sc)) (if P sc then N m else [])) fr)) \<longleftrightarrow>
     (\<exists>m sc nb. (m, sc) \<in> set fr \<and> P sc \<and> nb \<in> set (N m) \<and> k = f nb \<and> v = h sc)"
  (is "?L \<longleftrightarrow> ?R")
proof -
  let ?F = "\<lambda>(m, sc). map (\<lambda>nb. (f nb, h sc)) (if P sc then N m else [])"
  have one: "(k, v) \<in> set (?F a) \<longleftrightarrow>
      (\<exists>m sc nb. a = (m, sc) \<and> P sc \<and> nb \<in> set (N m) \<and> k = f nb \<and> v = h sc)" for a
    by (cases a) auto
  have "?L \<longleftrightarrow> (\<exists>a \<in> set fr. (k, v) \<in> set (?F a))" by simp
  also have "\<dots> \<longleftrightarrow> (\<exists>a \<in> set fr. \<exists>m sc nb. a = (m, sc) \<and> P sc \<and> nb \<in> set (N m) \<and> k = f nb \<and> v = h sc)"
    by (simp only: one)
  also have "\<dots> \<longleftrightarrow> ?R" by blast
  finally show ?thesis .
qed

lemma pushes_mem:
  "(k, v) \<in> set (pushes g fr) \<longleftrightarrow>
     (\<exists>m sc nb. (m, sc) \<in> set fr \<and> sc * 0.6 > 0.01 \<and> nb \<in> set (neighbor_nodes g m) \<and>
        k = nid nb \<and> v = sc * 0.6)"
  unfolding pushes_def
  by (rule concat_map_mem[of k v nid "\<lambda>sc. sc * 0.6" "\<lambda>sc. sc * 0.6 > 0.01" "neighbor_nodes g" fr])

lemma pushes_registered:
  assumes "graph_inv g"
  shows "fst ` set (pushes g fr) \<subseteq> fst ` set (nodes g)"
proof
  fix k assume "k \<in> fst ` set (pushes g fr)"
  then obtain v where "(k, v) \<in> set (pushes g fr)" by auto
  then obtain nb m where "nb \<in> set (neighbor_nodes g m)" "k = nid nb"
    unfolding pushes_mem by blast
  with neighbor_registered[OF assms] show "k \<in> fst ` set (nodes g)" by blast
qed

lemma all_pushes_registered:
  assumes "graph_inv g"
  shows "fst ` set (all_pushes g d fr) \<subseteq> fst ` set (nodes g)"
proof (induction d arbitrary: fr)
  case 0 then show ?case by simp
next
  case (Suc d)
  from pushes_registered[OF assms, of fr] Suc.IH[of "pushes g fr"]
  show ?case by (simp add: image_Un)
qed

lemma combined_scores_inv:
  assumes "graph_inv g"
  shows "combined_scores wd g q =
     Inr (combine (base_scores g q) (fold add_push (all_pushes g (nat wd) (base_scores g q)) []))"
  by (simp add: combined_scores_def Let_def propagate_inv[OF assms])

lemma combined_registered:
  assumes "graph_inv g" "combined_scores wd g q = Inr c"
  shows "fst ` set c \<subseteq> fst ` set (nodes g)"
proof -
  let ?b = "base_scores g q"
  from assms have c: "c = combine ?b (fold add_push (all_pushes g (nat wd) ?b) [])"
    by (simp add: combined_scores_inv)
  have "fst ` set ?b \<subseteq> fst ` set (nodes g)"
  proof
    fix k assume "k \<in> fst ` set ?b"
    then have "seeded g q k" by (simp add: base_scores_keys)
    then show "k \<in> fst ` set (nodes g)"
      using all_nodes_registered[OF assms(1)] by (auto simp: seeded_def)
  qed
  with all_pushes_registered[OF assms(1), of "nat wd" ?b] show ?thesis
    by (simp add: c combine_keys fold_add_push_keys)
qed

lemma graph_results_total:
  "fst ` set c \<subseteq> fst ` set (nodes g) \<Longrightarrow>
   graph_results g c =
     Inr (map (\<lambda>(k, sc). \<lparr>node = the (map_of (nodes g) k), score = sc, strategy = ''graph''\<rparr>) c)"
proof (induction c)
  case Nil then show ?case by simp
next
  case (Cons a c)
  obtain k sc where a: "a = (k, sc)" by (cases a)
  from Cons.prems have "k \<in> fst ` set (nodes g)" by (simp add: a)
  then obtain n where "map_of (nodes g) k = Some n"
    by (metis map_of_eq_None_iff not_Some_eq)
  with Cons show ?case by (simp add: a subscript_def)
qed

subsection \<open>Graph-Traversal strategy on the small graph\<close>

lemma demo_signatures:
  "lower (text_signature node_a) = ''att p tr net dl tr''"
  "lower (text_signature node_b) = ''fold p bio bio dl''"
  "lower (text_signature node_c) = ''wiki w dl dl ov''"
  by (simp_all add: text_signature_def node_a_def node_b_def node_c_def
      strip_def is_space_def lower_def lower_char_def)

lemma demo_keywords: "query_keywords ''Bio'' = [''bio'']"
  by (simp add: query_keywords_def strip_def is_space_def lower_def lower_char_def)

lemma demo_seeds: "\<not> is_seed ''Bio'' node_a" "is_seed ''Bio'' node_b" "\<not> is_seed ''Bio'' node_c"
  by (simp_all add: is_seed_def demo_keywords demo_signatures)

lemma demo_base_scores: "base_scores demo_graph ''Bio'' = [(''b'', 1)]"
  by (simp add: base_scores_def demo_all_nodes demo_seeds demo_ids)

lemma demo_neighbors:
  "neighbors demo_graph ''a'' = Inr [node_b]"
  "neighbors demo_graph ''b'' = Inr [node_a, node_c]"
  "neighbors demo_graph ''c'' = Inr [node_b]"
  by (simp_all add: neighbors_def demo_graph_eq dict_get_def subscript_def related_nodes_def
      List.map_filter_def demo_ids)

lemma demo_expand1:
  "expand demo_graph [(''b'', 1)] ([], []) = Inr ([(''a'', 3 / 5), (''c'', 3 / 5)], [(''a'', 3 / 5), (''c'', 3 / 5)])"
  by (simp add: demo_neighbors visit_push add_push_unfold demo_ids)

lemma demo_expand2:
  "expand demo_graph [(''a'', 3 / 5), (''c'', 3 / 5)] ([(''a'', 3 / 5), (''c'', 3 / 5)], []) =
     Inr ([(''a'', 3 / 5), (''c'', 3 / 5), (''b'', 9 / 25)], [(''b'', 9 / 25), (''b'', 9 / 25)])"
  by (simp add: demo_neighbors visit_push add_push_unfold demo_ids)

lemma demo_propagate:
  "propagate demo_graph (Suc (Suc 0)) [(''b'', 1)] [] = Inr [(''a'', 3 / 5), (''c'', 3 / 5), (''b'', 9 / 25)]"
  by (simp add: demo_expand1 demo_expand2 del: expand.simps)

lemma demo_combined: "combined_scores 2 demo_graph ''Bio'' = Inr [(''b'', 1), (''a'', 3 / 5), (''c'', 3 / 5)]"
  by (simp add: combined_scores_def demo_base_scores numeral_2_eq_2 demo_propagate combine_def dict_get_def
      del: propagate.simps)

lemma demo_lookup:
  "subscript (nodes demo_graph) ''a'' = Inr node_a"
  "subscript (nodes demo_graph) ''b'' = Inr node_b"
  "subscript (nodes demo_graph) ''c'' = Inr node_c"
  by (simp_all add: demo_graph_eq subscript_def)

lemma demo_graph_search:
  "graph_search 2 demo_graph ''Bio'' 2 =
     Inr [\<lparr>node = node_b, score = 1, strategy = ''graph''\<rparr>,
          \<lparr>node = node_a, score = 3 / 5, strategy = ''graph''\<rparr>]"
  by (simp add: graph_search_def demo_combined demo_lookup sort_desc_def py_take_def)

subsection \<open>Graph-Traversal strategy: no failing lookup\<close>

text \<open>
  C10. On a graph built by calls of \<open>add_node\<close> and \<open>add_hyperedge\<close> alone, the
  subscript \<open>graph.nodes[node_id]\<close> of a Graph-Traversal search never fails: the score
  dictionary is computed without a failing subscript, each of its keys is a key of the
  node dictionary, so the result list is built and the search returns.
\<close>

theorem graph_lookup_never_fails:
  assumes "built g"
  shows "\<exists>c rs. combined_scores wd g q = Inr c \<and> fst ` set c \<subseteq> fst ` set (nodes g) \<and>
           (\<forall>k \<in> fst ` set c. \<exists>n. subscript (nodes g) k = Inr n) \<and>
           graph_results g c = Inr rs \<and>
           graph_search wd g q limit = Inr (py_take limit (sort_desc score rs))"
proof -
  from assms have inv: "graph_inv g" by (rule built_graph_inv)
  let ?c = "combine (base_scores g q) (fold add_push (all_pushes g (nat wd) (base_scores g q)) [])"
  have c: "combined_scores wd g q = Inr ?c" by (rule combined_scores_inv[OF inv])
  have sub: "fst ` set ?c \<subseteq> fst ` set (nodes g)" by (rule combined_registered[OF inv c])
  have look: "\<exists>n. subscript (nodes g) k = Inr n" if "k \<in> fst ` set ?c" for k
  proof -
    from that sub have "k \<in> fst ` set (nodes g)" by blast
    then obtain n where "map_of (nodes g) k = Some n"
      by (metis map_of_eq_None_iff not_Some_eq)
    then show ?thesis by (simp add: subscript_def)
  qed
  from graph_results_total[OF sub] obtain rs where rs: "graph_results g ?c = Inr rs" by blast
  have "graph_search wd g q limit = Inr (py_take limit (sort_desc score rs))"
    by (simp add: graph_search_def c rs)
  with c sub look rs show ?thesis by blast
qed

theorem graph_lookup_never_fails_witness:
  "built demo_graph \<and>
   graph_search 2 demo_graph ''Bio'' 2 =
     Inr [\<lparr>node = node_b, score = 1, strategy = ''graph''\<rparr>,
          \<lparr>node = node_a, score = 3 / 5, strategy = ''graph''\<rparr>]"
proof -
  have b: "built demo_graph"
    unfolding demo_graph_def by (rule built_from_sources)
  from graph_lookup_never_fails[OF b, of 2 "''Bio''" 2] demo_graph_search b
  show ?thesis by simp
qed

subsection \<open>Graph-Traversal strategy: the scores\<close>

lemma frontier_at_pushes: "frontier_at g (pushes g b) h = frontier_at g b (Suc h)"
  by (induction h) simp_all

lemma UN_from_one:
  "(\<Union>h \<in> {1..Suc d}. F h) = F 1 \<union> (\<Union>h \<in> {1..d}. F (Suc h))"
proof (intro equalityI subsetI)
  fix x assume "x \<in> (\<Union>h \<in> {1..Suc d}. F h)"
  then obtain h where h: "1 \<le> h" "h \<le> Suc d" "x \<in> F h" by auto
  show "x \<in> F 1 \<union> (\<Union>h \<in> {1..d}. F (Suc h))"
  proof (cases "h = 1")
    case True with h show ?thesis by simp
  next
    case False
    with h obtain h' where "h = Suc h'" "1 \<le> h'" "h' \<le> d" by (cases h) auto
    with h show ?thesis by auto
  qed
next
  fix x assume "x \<in> F 1 \<union> (\<Union>h \<in> {1..d}. F (Suc h))"
  then consider "x \<in> F 1" | h where "1 \<le> h" "h \<le> d" "x \<in> F (Suc h)" by auto
  then show "x \<in> (\<Union>h \<in> {1..Suc d}. F h)"
  proof cases
    case 1
    have "(1::nat) \<in> {1..Suc d}" by simp
    with 1 show ?thesis by blast
  next
    case 2
    then have "Suc h \<in> {1..Suc d}" by simp
    with 2 show ?thesis by blast
  qed
qed

lemma set_all_pushes: "set (all_pushes g d b) = (\<Union>h \<in> {1..d}. set (frontier_at g b h))"
proof (induction d arbitrary: b)
  case 0 then show ?case by simp
next
  case (Suc d)
  have "set (all_pushes g (Suc d) b) =
      set (frontier_at g b 1) \<union> (\<Union>h \<in> {1..d}. set (frontier_at g b (Suc h)))"
    by (simp add: Suc.IH frontier_at_pushes del: frontier_at.simps)
       (simp)
  then show ?case by (simp only: UN_from_one[of "\<lambda>h. set (frontier_at g b h)" d])
qed

lemma frontier_receives:
  "(k, v) \<in> set (frontier_at g (base_scores g q) h) \<longleftrightarrow> receives g q h k v"
proof (induction h arbitrary: k v)
  case 0
  show ?case
  proof
    assume "(k, v) \<in> set (frontier_at g (base_scores g q) 0)"
    then show "receives g q 0 k v" by (simp add: base_scores_set receives_seed)
  next
    assume "receives g q 0 k v"
    then show "(k, v) \<in> set (frontier_at g (base_scores g q) 0)"
      by (cases rule: receives.cases) (simp_all add: base_scores_set)
  qed
next
  case (Suc h)
  show ?case
  proof
    assume "(k, v) \<in> set (frontier_at g (base_scores g q) (Suc h))"
    then obtain m sc nb where "(m, sc) \<in> set (frontier_at g (base_scores g q) h)"
      "sc * 0.6 > 0.01" "nb \<in> set (neighbor_nodes g m)" "k = nid nb" "v = sc * 0.6"
      by (auto simp: pushes_mem)
    with Suc.IH[of m sc] show "receives g q (Suc h) k v"
      using receives_hop[of g q h m sc nb] by blast
  next
    assume "receives g q (Suc h) k v"
    then obtain m sc nb where "receives g q h m sc" "nb \<in> set (neighbor_nodes g m)"
      "sc * 0.6 > 0.01" "k = nid nb" "v = sc * 0.6"
      by (cases rule: receives.cases) auto
    with Suc.IH[of m sc] show "(k, v) \<in> set (frontier_at g (base_scores g q) (Suc h))"
      unfolding frontier_at.simps pushes_mem by blast
  qed
qed

lemma all_pushes_values:
  "{v. (k, v) \<in> set (all_pushes g d (base_scores g q))} = propagated_values g q d k"
  unfolding set_all_pushes propagated_values_def
  by (auto simp: frontier_receives)

lemma receives_value: "receives g q h k v \<Longrightarrow> v = (0.6::real) ^ h"
  by (induction rule: receives.induct) simp_all

lemma receives_kept: "receives g q h k v \<Longrightarrow> 1 \<le> h \<Longrightarrow> v > 0.01"
  by (cases rule: receives.cases) auto

lemma propagated_finite: "finite (propagated_values g q d k)"
proof -
  have "propagated_values g q d k \<subseteq> snd ` set (all_pushes g d (base_scores g q))"
    unfolding all_pushes_values[symmetric] by (auto intro: rev_image_eqI)
  then show ?thesis by (rule finite_subset) simp
qed

lemma propagated_bounds:
  assumes "v \<in> propagated_values g q d k"
  shows "0.01 < v" "v \<le> 0.6"
proof -
  from assms obtain h where h: "1 \<le> h" "receives g q h k v"
    by (auto simp: propagated_values_def)
  from receives_kept[OF h(2) h(1)] show "0.01 < v" .
  from receives_value[OF h(2)] have v: "v = 0.6 ^ h" .
  from h(1) obtain h' where "h = Suc h'" by (cases h) auto
  then have "v = 0.6 * 0.6 ^ h'" using v by simp
  moreover have "(0.6::real) ^ h' \<le> 1" by (rule power_le_one) simp_all
  ultimately show "v \<le> 0.6" by simp
qed

lemma propagated_Max:
  assumes "propagated_values g q d k \<noteq> {}"
  shows "0.01 < Max (propagated_values g q d k)" "Max (propagated_values g q d k) \<le> 0.6"
proof -
  from Max_in[OF propagated_finite assms]
  have "Max (propagated_values g q d k) \<in> propagated_values g q d k" .
  from propagated_bounds[OF this]
  show "0.01 < Max (propagated_values g q d k)" "Max (propagated_values g q d k) \<le> 0.6" .
qed

lemma distinct_values_of_key:
  assumes "distinct (map fst p)"
  shows "{v. (k, v) \<in> set p} = (if k \<in> fst ` set p then {dict_get p k x} else {})"
proof (cases "k \<in> fst ` set p")
  case False
  then show ?thesis by (auto intro: rev_image_eqI)
next
  case True
  then obtain w where w: "map_of p k = Some w"
    by (metis map_of_eq_None_iff not_Some_eq)
  have "(k, v) \<in> set p \<longleftrightarrow> map_of p k = Some v" for v
    using assms by (simp add: map_of_eq_Some_iff)
  then have "{v. (k, v) \<in> set p} = {w}" by (auto simp: w)
  with True w show ?thesis by (simp add: dict_get_def)
qed

lemma combined_lookup:
  "map_of (combine (base_scores g q) (fold add_push (all_pushes g d (base_scores g q)) [])) k
     = final_score g q d k"
proof -
  let ?b = "base_scores g q"
  let ?L = "all_pushes g d ?b"
  let ?p = "fold add_push ?L []"
  let ?P = "propagated_values g q d k"
  have fin: "finite ?P" by (rule propagated_finite)
  have vals: "{v. (k, v) \<in> set ?L} = ?P" by (rule all_pushes_values)
  have keys_p: "k \<in> fst ` set ?p \<longleftrightarrow> ?P \<noteq> {}"
  proof -
    have "k \<in> fst ` set ?L \<longleftrightarrow> {v. (k, v) \<in> set ?L} \<noteq> {}"
      by (auto intro: rev_image_eqI)
    then show ?thesis by (simp add: fold_add_push_keys vals)
  qed
  have get_p: "dict_get ?p k 0 = Max (insert 0 ?P)"
    by (simp add: fold_add_push_get vals) (simp add: dict_get_def)
  have dist_p: "distinct (map fst ?p)"
    by (rule fold_add_push_distinct) simp
  have vals_p: "{v. (k, v) \<in> set ?p} = (if ?P = {} then {} else {Max (insert 0 ?P)})"
    using distinct_values_of_key[OF dist_p, of k 0] keys_p get_p by simp
  have keys_c: "k \<in> fst ` set (combine ?b ?p) \<longleftrightarrow> seeded g q k \<or> ?P \<noteq> {}"
    by (simp add: combine_keys base_scores_keys keys_p)
  have get_c: "dict_get (combine ?b ?p) k 0 =
      Max (insert (if seeded g q k then 1 else 0) (if ?P = {} then {} else {Max (insert 0 ?P)}))"
    by (simp add: combine_get[OF base_scores_distinct] base_scores_get vals_p)
  have look: "map_of (combine ?b ?p) k =
      (if seeded g q k \<or> ?P \<noteq> {} then Some (dict_get (combine ?b ?p) k 0) else None)"
    using map_of_dict_get[of "combine ?b ?p" k 0] keys_c by simp
  show ?thesis
  proof (cases "?P = {}")
    case True
    then show ?thesis by (simp add: look get_c final_score_def)
  next
    case False
    from propagated_Max[OF False] have pos: "0 < Max ?P" by simp
    have m0: "Max (insert 0 ?P) = Max ?P"
      using fin False pos by (simp add: max_def)
    show ?thesis
      using False pos by (simp add: look get_c final_score_def m0 max_def)
  qed
qed

lemma seeded_final_score: "seeded g q k \<Longrightarrow> final_score g q d k = Some 1"
proof -
  assume s: "seeded g q k"
  show ?thesis
  proof (cases "propagated_values g q d k = {}")
    case True with s show ?thesis by (simp add: final_score_def)
  next
    case False
    from propagated_Max(2)[OF False] have "max 1 (Max (propagated_values g q d k)) = 1"
      by (simp add: max_def)
    with s False show ?thesis by (simp add: final_score_def)
  qed
qed

lemma split_tokens: "t \<in> set (split s) \<Longrightarrow> t \<noteq> [] \<and> (\<forall>c \<in> set t. \<not> is_space c)"
proof (induction s rule: split.induct)
  case 1 then show ?case by simp
next
  case (2 c cs)
  show ?case
  proof (cases "is_space c")
    case True
    with 2 show ?thesis by simp
  next
    case False
    with "2.prems" consider "t = c # takeWhile (\<lambda>d. \<not> is_space d) cs"
      | "t \<in> set (split (dropWhile (\<lambda>d. \<not> is_space d) cs))" by auto
    then show ?thesis
    proof cases
      case 1
      with False show ?thesis by (auto dest: set_takeWhileD)
    next
      case 2
      with "2.IH"(2)[OF False] show ?thesis by simp
    qed
  qed
qed

lemma dropWhile_none: "\<forall>x \<in> set xs. \<not> P x \<Longrightarrow> dropWhile P xs = xs"
  by (cases xs) simp_all

lemma strip_no_space: "\<forall>c \<in> set t. \<not> is_space c \<Longrightarrow> strip t = t"
  by (simp add: strip_def dropWhile_none)

lemma split_tokens_kept: "filter (\<lambda>t. strip t \<noteq> []) (split s) = split s"
proof -
  have "strip t \<noteq> []" if "t \<in> set (split s)" for t
    using split_tokens[OF that] by (simp add: strip_no_space)
  then show ?thesis by (simp add: filter_id_conv)
qed

lemma is_seed_iff:
  "is_seed q n \<longleftrightarrow>
     (\<exists>t \<in> set (split q). \<exists>ps ss. lower (text_signature n) = ps @ lower t @ ss)"
  by (simp add: is_seed_def list_ex_iff query_keywords_def split_tokens_kept contains_iff)

lemma graph_results_pairs:
  assumes "graph_inv g" "fst ` set c \<subseteq> fst ` set (nodes g)"
  shows "\<exists>full. graph_results g c = Inr full \<and> map (\<lambda>r. (nid (node r), score r)) full = c"
proof -
  let ?full = "map (\<lambda>(k, sc). \<lparr>node = the (map_of (nodes g) k), score = sc, strategy = ''graph''\<rparr>) c"
  have "(nid (the (map_of (nodes g) k)), sc) = (k, sc)" if "(k, sc) \<in> set c" for k sc
  proof -
    from that have "k \<in> fst ` set c" by (rule rev_image_eqI) simp
    with assms(2) have "k \<in> fst ` set (nodes g)" by blast
    then obtain n where n: "map_of (nodes g) k = Some n"
      by (metis map_of_eq_None_iff not_Some_eq)
    from stored_node_id(1)[OF assms(1) n] n show ?thesis by simp
  qed
  then have "map (\<lambda>r. (nid (node r), score r)) ?full = map (\<lambda>x. x) c"
    unfolding map_map by (intro map_cong) auto
  with graph_results_total[OF assms(2)] show ?thesis by simp
qed

text \<open>
  C1. A node is a seed when its lowercased signature contains a lowercased token of the
  query. Every value received at hop \<open>h\<close> is \<open>0.6 ^ h\<close>, and the values that are 0.01
  or less are not received. On a graph that satisfies the invariant the search computes,
  for every node id, the final score: the maximum (not the sum) of the seed score 1.0, if
  the node is a seed, and of the values received in the hops 1 to \<open>walk_depth\<close>; a node
  with neither has no score. Each returned node has that final score, and a seed has the
  final score 1.0 exactly.
\<close>

theorem graph_traversal_scores:
  assumes "graph_inv g"
  shows "(is_seed q n \<longleftrightarrow>
            (\<exists>t \<in> set (split q). \<exists>ps ss. lower (text_signature n) = ps @ lower t @ ss)) \<and>
         (receives g q h k v \<longrightarrow> v = 0.6 ^ h) \<and>
         (seeded g q k \<longrightarrow> final_score g q (nat wd) k = Some 1) \<and>
         (\<exists>c full. combined_scores wd g q = Inr c \<and>
            (\<forall>k. map_of c k = final_score g q (nat wd) k) \<and>
            graph_results g c = Inr full \<and>
            map (\<lambda>r. (nid (node r), score r)) full = c \<and>
            graph_search wd g q limit = Inr (py_take limit (sort_desc score full)) \<and>
            (\<forall>r \<in> set (py_take limit (sort_desc score full)).
               final_score g q (nat wd) (nid (node r)) = Some (score r)))"
proof (intro conjI)
  show "is_seed q n \<longleftrightarrow>
      (\<exists>t \<in> set (split q). \<exists>ps ss. lower (text_signature n) = ps @ lower t @ ss)"
    by (rule is_seed_iff)
  show "receives g q h k v \<longrightarrow> v = 0.6 ^ h"
    using receives_value[of g q h k v] by blast
  show "seeded g q k \<longrightarrow> final_score g q (nat wd) k = Some 1"
    by (simp add: seeded_final_score)
  let ?c = "combine (base_scores g q) (fold add_push (all_pushes g (nat wd) (base_scores g q)) [])"
  have c: "combined_scores wd g q = Inr ?c" by (rule combined_scores_inv[OF assms])
  have look: "\<forall>k. map_of ?c k = final_score g q (nat wd) k"
    by (simp add: combined_lookup)
  have sub: "fst ` set ?c \<subseteq> fst ` set (nodes g)" by (rule combined_registered[OF assms c])
  from graph_results_pairs[OF assms sub] obtain full
    where full: "graph_results g ?c = Inr full" "map (\<lambda>r. (nid (node r), score r)) full = ?c"
    by blast
  have search: "graph_search wd g q limit = Inr (py_take limit (sort_desc score full))"
    by (simp add: graph_search_def c full(1))
  have each: "final_score g q (nat wd) (nid (node r)) = Some (score r)"
    if "r \<in> set (py_take limit (sort_desc score full))" for r
  proof -
    from that have "r \<in> set full"
      using in_set_py_take[of r limit "sort_desc score full"] by (simp add: set_sort_desc)
    then have "(nid (node r), score r) \<in> set (map (\<lambda>r. (nid (node r), score r)) full)"
      by (auto intro: rev_image_eqI)
    then have "(nid (node r), score r) \<in> set ?c" by (simp only: full(2))
    then have "map_of ?c (nid (node r)) = Some (score r)"
      using combine_distinct[of "base_scores g q"] by (simp add: map_of_eq_Some_iff)
    with look show ?thesis by simp
  qed
  from c look full search each
  show "\<exists>c full. combined_scores wd g q = Inr c \<and>
            (\<forall>k. map_of c k = final_score g q (nat wd) k) \<and>
            graph_results g c = Inr full \<and>
            map (\<lambda>r. (nid (node r), score r)) full = c \<and>
            graph_search wd g q limit = Inr (py_take limit (sort_desc score full)) \<and>
            (\<forall>r \<in> set (py_take limit (sort_desc score full)).
               final_score g q (nat wd) (nid (node r)) = Some (score r))"
    by blast
qed

theorem graph_traversal_scores_witness:
  "graph_inv demo_graph \<and>
   graph_search 2 demo_graph ''Bio'' 2 =
     Inr [\<lparr>node = node_b, score = 1, strategy = ''graph''\<rparr>,
          \<lparr>node = node_a, score = 3 / 5, strategy = ''graph''\<rparr>] \<and>
   final_score demo_graph ''Bio'' 2 ''b'' = Some 1 \<and>
   final_score demo_graph ''Bio'' 2 ''a'' = Some (3 / 5) \<and>
   final_score demo_graph ''Bio'' 2 ''c'' = Some (3 / 5) \<and>
   final_score demo_graph ''Bio'' 2 ''z'' = None"
proof -
  have inv: "graph_inv demo_graph"
    unfolding demo_graph_def by (rule built_graph_inv) (rule built_from_sources)
  from graph_traversal_scores[OF inv, of "''Bio''" node_b 0 "''b''" 1 2 2]
  obtain c where "combined_scores 2 demo_graph ''Bio'' = Inr c"
    and look: "\<forall>k. map_of c k = final_score demo_graph ''Bio'' (nat 2) k"
    by blast
  then have c: "c = [(''b'', 1), (''a'', 3 / 5), (''c'', 3 / 5)]"
    by (simp add: demo_combined)
  have "final_score demo_graph ''Bio'' 2 k = map_of [(''b'', 1), (''a'', 3 / 5), (''c'', 3 / 5)] k" for k
    using look c by simp
  then show ?thesis
    using inv demo_graph_search by simp
qed

subsection \<open>The idf table of the Vector strategy\<close>

lemma vector_search_state:
  "snd (vector_search idf g q limit) = (if idf = [] then build_index (all_nodes g) else idf)"
  by (simp add: vector_search_def Let_def)

lemma vector_searches_kept: "idf \<noteq> [] \<Longrightarrow> vector_searches idf calls = idf"
proof (induction calls)
  case Nil then show ?case by (simp add: vector_searches_def)
next
  case (Cons c calls)
  obtain g q limit where c: "c = (g, q, limit)" by (cases c)
  from Cons show ?case by (simp add: vector_searches_def c vector_search_state)
qed

lemma vector_searches_first:
  "build_index (all_nodes g) \<noteq> [] \<Longrightarrow>
   vector_searches [] ((g, q, limit) # calls) = build_index (all_nodes g)"
  using vector_searches_kept[of "build_index (all_nodes g)" calls]
  by (simp add: vector_searches_def vector_search_state)

lemma build_index_empty:
  "build_index ns = [] \<longleftrightarrow> (\<forall>n \<in> set ns. tokenize (text_signature n) = [])"
proof -
  have "build_index ns = [] \<longleftrightarrow> fst ` set (term_doc_frequency ns) = {}"
    by (simp add: build_index_def)
  also have "\<dots> \<longleftrightarrow> (\<forall>n \<in> set ns. tokenize (text_signature n) = [])"
    by (simp add: term_doc_frequency_def tdf_fold_keys)
  finally show ?thesis .
qed

text \<open>
  C7, as the code has it. A search builds the idf table from the nodes of the graph it is
  given when the table it finds is empty, and leaves a table that is not empty as it is,
  whatever the graph has become. So the table of a new strategy is built by the first
  search, and when that table is not empty no later search rebuilds it. The built table is
  empty exactly when no node has a token, and then the next search builds it again.
\<close>

theorem vector_index_cache:
  "(idf \<noteq> [] \<longrightarrow> vector_searches idf calls = idf) \<and>
   snd (vector_search [] g q limit) = build_index (all_nodes g) \<and>
   (build_index (all_nodes g) \<noteq> [] \<longrightarrow>
      vector_searches [] ((g, q, limit) # calls) = build_index (all_nodes g)) \<and>
   (build_index (all_nodes g) = [] \<longleftrightarrow> (\<forall>n \<in> set (all_nodes g). tokenize (text_signature n) = []))"
  by (simp add: vector_searches_kept vector_searches_first vector_search_state build_index_empty)

lemma demo_index_nonempty: "build_index [node_a, node_b, node_c] \<noteq> []"
  by (simp add: build_index_empty demo_tokens)

theorem vector_index_cache_witness:
  "vector_searches [(''dl'', 1)] [(demo_graph, ''dl'', 2), (empty_graph, ''x'', 1)] = [(''dl'', 1)] \<and>
   vector_searches [] [(demo_graph, ''dl'', 2), (empty_graph, ''x'', 1)] = build_index [node_a, node_b, node_c] \<and>
   build_index [node_a, node_b, node_c] \<noteq> []"
  using vector_index_cache[of "[(''dl'', 1)]" "[(demo_graph, ''dl'', 2), (empty_graph, ''x'', 1)]" demo_graph "''dl''" 2]
    vector_index_cache[of "[]" "[(empty_graph, ''x'', 1)]" demo_graph "''dl''" 2] demo_index_nonempty
  by (simp add: demo_all_nodes)

lemma single_index_nonempty: "build_index [node_a] \<noteq> []"
  by (simp add: build_index_empty demo_tokens)

text \<open>
  C7 as stated fails: a new strategy searches the empty graph, which leaves its table
  empty; the graph gains a node; the second search builds the table.
\<close>

theorem vector_index_rebuilt_counterexample:
  "snd (vector_search [] empty_graph ''att'' 5) = [] \<and>
   snd (vector_search (snd (vector_search [] empty_graph ''att'' 5)) (add_node empty_graph node_a) ''att'' 5)
     \<noteq> snd (vector_search [] empty_graph ''att'' 5)"
proof -
  have e: "all_nodes empty_graph = []" by (simp add: all_nodes_def empty_graph_def)
  have a: "all_nodes (add_node empty_graph node_a) = [node_a]"
    by (simp add: all_nodes_def empty_graph_def add_node_def)
  have b: "build_index [] = []" by (simp add: build_index_empty)
  show ?thesis
    using single_index_nonempty by (simp add: vector_search_state e a b)
qed

subsection \<open>Determinism of the searches\<close>

lemma graph_search_total: "graph_inv g \<Longrightarrow> \<exists>rs. graph_search wd g q limit = Inr rs"
proof -
  assume inv: "graph_inv g"
  let ?c = "combine (base_scores g q) (fold add_push (all_pushes g (nat wd) (base_scores g q)) [])"
  have c: "combined_scores wd g q = Inr ?c" by (rule combined_scores_inv[OF inv])
  have sub: "fst ` set ?c \<subseteq> fst ` set (nodes g)" by (rule combined_registered[OF inv c])
  from graph_results_total[OF sub] show ?thesis
    by (simp add: graph_search_def c)
qed

lemma name_warm [simp]: "name (warm g s) = name s"
  by (cases s) simp_all

lemma warm_warm [simp]: "warm g (warm g s) = warm g s"
  by (cases s) simp_all

lemma search_state: "search s g q limit = Inr (rs, s') \<Longrightarrow> s' = warm g s"
  by (cases s) (auto simp: vector_search_def Let_def bind_def split: sum.splits)

lemma search_warm: "search (warm g s) g q limit = search s g q limit"
  by (cases s) (simp_all add: vector_search_def Let_def)

lemma search_total:
  assumes "graph_inv g"
  shows "\<exists>rs. search s g q limit = Inr (rs, warm g s)"
proof (cases s)
  case (VectorSemanticSearch idf)
  then show ?thesis by (simp add: vector_search_def Let_def)
next
  case (GraphTraversalSearch wd)
  with graph_search_total[OF assms, of wd q limit] show ?thesis by auto
next
  case OntologyLensSearch
  then show ?thesis by simp
qed

lemma search_again:
  assumes "search s g q limit = Inr (rs, s')"
  shows "search s' g q limit = Inr (rs, s')"
  using assms search_state[OF assms] by (simp add: search_warm)

lemma run_strategies_total:
  assumes "graph_inv g"
  shows "\<exists>acc'. run_strategies sts g q limit acc = Inr (acc', map (warm g) sts)"
proof (induction sts arbitrary: acc)
  case Nil then show ?case by simp
next
  case (Cons s sts)
  from search_total[OF assms, of s q limit] obtain rs
    where rs: "search s g q limit = Inr (rs, warm g s)" by blast
  from Cons.IH[of "AList.update (name s) rs acc"] obtain acc'
    where "run_strategies sts g q limit (AList.update (name s) rs acc) = Inr (acc', map (warm g) sts)"
    by blast
  with rs show ?case by simp
qed

lemma run_strategies_warm:
  "run_strategies (map (warm g) sts) g q limit acc = run_strategies sts g q limit acc"
proof (induction sts arbitrary: acc)
  case Nil then show ?case by simp
next
  case (Cons s sts)
  show ?case by (simp add: search_warm Cons.IH)
qed

lemma fuse_keys:
  "fst ` set (fst (fuse w rank rs (sbn, nobj))) = fst ` set sbn \<union> (nid \<circ> node) ` set rs \<and>
   fst ` set (snd (fuse w rank rs (sbn, nobj))) = fst ` set nobj \<union> (nid \<circ> node) ` set rs"
  by (induction rs arbitrary: rank sbn nobj) (auto simp: dom_update)

lemma fuse_same_keys:
  "fst ` set sbn = fst ` set nobj \<Longrightarrow>
   fst ` set (fst (fuse w rank rs (sbn, nobj))) = fst ` set (snd (fuse w rank rs (sbn, nobj)))"
  using fuse_keys[of w rank rs sbn nobj] by simp

lemma fuse_fold_same_keys:
  "fst ` set (fst st) = fst ` set (snd st) \<Longrightarrow>
   fst ` set (fst (fold (\<lambda>(nm, results) st. fuse (dict_get ws nm 1) 1 results st) sr st))
     = fst ` set (snd (fold (\<lambda>(nm, results) st. fuse (dict_get ws nm 1) 1 results st) sr st))"
proof (induction sr arbitrary: st)
  case Nil then show ?case by simp
next
  case (Cons a sr)
  obtain nm results where a: "a = (nm, results)" by (cases a)
  obtain sbn nobj where st: "st = (sbn, nobj)" by (cases st)
  from Cons.prems have "fst ` set sbn = fst ` set nobj" by (simp add: st)
  from fuse_same_keys[OF this] Cons.IH show ?case by (simp add: a st)
qed

lemma fuse_all_same_keys:
  "fst ` set (fst (fuse_all ws sr)) = fst ` set (snd (fuse_all ws sr))"
  unfolding fuse_all_def by (rule fuse_fold_same_keys) simp

lemma merged_total:
  "fst ` set sbn \<subseteq> fst ` set nobj \<Longrightarrow>
   merged nobj sbn =
     Inr (map (\<lambda>(k, sc). \<lparr>node = the (map_of nobj k), score = sc, strategy = ''hybrid''\<rparr>) sbn)"
proof (induction sbn)
  case Nil then show ?case by simp
next
  case (Cons a sbn)
  obtain k sc where a: "a = (k, sc)" by (cases a)
  from Cons.prems have "k \<in> fst ` set nobj" by (simp add: a)
  then obtain n where "map_of nobj k = Some n"
    by (metis map_of_eq_None_iff not_Some_eq)
  with Cons show ?case by (simp add: a subscript_def)
qed

lemma hybrid_search_unfold:
  assumes "run_strategies (strategies h) g q limit [] = Inr (sr, sts')"
  shows "hybrid_search h g q limit =
     Inr (py_take limit (sort_desc score (merged_list (weights h) sr)), h\<lparr>strategies := sts'\<rparr>)"
proof -
  obtain sbn nobj where f: "fuse_all (weights h) sr = (sbn, nobj)" by (cases "fuse_all (weights h) sr")
  from fuse_all_same_keys[of "weights h" sr] f have "fst ` set sbn \<subseteq> fst ` set nobj" by simp
  from merged_total[OF this] show ?thesis
    by (simp add: hybrid_search_def assms f merged_list_def)
qed

lemma hybrid_search_total:
  assumes "graph_inv g"
  shows "\<exists>sr. run_strategies (strategies h) g q limit [] = Inr (sr, map (warm g) (strategies h)) \<and>
     hybrid_search h g q limit =
       Inr (py_take limit (sort_desc score (merged_list (weights h) sr)),
            h\<lparr>strategies := map (warm g) (strategies h)\<rparr>)"
proof -
  from run_strategies_total[OF assms, of "strategies h" q limit "[]"] obtain sr
    where sr: "run_strategies (strategies h) g q limit [] = Inr (sr, map (warm g) (strategies h))"
    by blast
  from hybrid_search_unfold[OF sr] sr show ?thesis by blast
qed

lemma hybrid_search_again:
  assumes "graph_inv g" "hybrid_search h g q limit = Inr (rs, h')"
  shows "hybrid_search h' g q limit = Inr (rs, h')" "weights h' = weights h"
proof -
  from hybrid_search_total[OF assms(1), of h q limit] obtain sr
    where sr: "run_strategies (strategies h) g q limit [] = Inr (sr, map (warm g) (strategies h))"
      and hs: "hybrid_search h g q limit =
         Inr (py_take limit (sort_desc score (merged_list (weights h) sr)),
              h\<lparr>strategies := map (warm g) (strategies h)\<rparr>)"
    by blast
  from hs assms(2) have rs: "rs = py_take limit (sort_desc score (merged_list (weights h) sr))"
    and h': "h' = h\<lparr>strategies := map (warm g) (strategies h)\<rparr>" by simp_all
  show "weights h' = weights h" by (simp add: h')
  have "run_strategies (strategies h') g q limit [] = Inr (sr, map (warm g) (strategies h))"
    by (simp add: h' run_strategies_warm sr)
  from hybrid_search_unfold[OF this] show "hybrid_search h' g q limit = Inr (rs, h')"
    by (simp add: rs h')
qed

text \<open>
  C9. On a graph that satisfies the invariant, a search of a Vector, Graph-Traversal or
  Ontology-Lens strategy returns, and a second search of the strategy it leaves, with the
  same graph, query and limit, returns the same results in the same order and leaves the
  strategy unchanged; the same holds for a Hybrid strategy. In particular the idf table of
  a Vector strategy after the second search is the table after the first.
\<close>

theorem search_deterministic:
  assumes "graph_inv g"
  shows "(\<exists>rs s'. search s g q limit = Inr (rs, s') \<and> search s' g q limit = Inr (rs, s')) \<and>
         (\<exists>rs h'. hybrid_search h g q limit = Inr (rs, h') \<and> hybrid_search h' g q limit = Inr (rs, h')) \<and>
         vector_search (snd (vector_search idf g q limit)) g q limit = vector_search idf g q limit"
proof (intro conjI)
  from search_total[OF assms, of s q limit] obtain rs
    where rs: "search s g q limit = Inr (rs, warm g s)" by blast
  from search_again[OF rs] rs
  show "\<exists>rs s'. search s g q limit = Inr (rs, s') \<and> search s' g q limit = Inr (rs, s')" by blast
next
  from hybrid_search_total[OF assms, of h q limit] obtain rs h'
    where hs: "hybrid_search h g q limit = Inr (rs, h')" by blast
  from hybrid_search_again(1)[OF assms hs] hs
  show "\<exists>rs h'. hybrid_search h g q limit = Inr (rs, h') \<and> hybrid_search h' g q limit = Inr (rs, h')"
    by blast
next
  show "vector_search (snd (vector_search idf g q limit)) g q limit = vector_search idf g q limit"
    by (simp add: vector_search_def Let_def)
qed

theorem search_deterministic_witness:
  "graph_inv demo_graph \<and>
   search (GraphTraversalSearch 2) demo_graph ''Bio'' 2 =
     Inr ([\<lparr>node = node_b, score = 1, strategy = ''graph''\<rparr>,
           \<lparr>node = node_a, score = 3 / 5, strategy = ''graph''\<rparr>], GraphTraversalSearch 2)"
proof -
  have inv: "graph_inv demo_graph"
    unfolding demo_graph_def by (rule built_graph_inv) (rule built_from_sources)
  from search_deterministic[OF inv, of "GraphTraversalSearch 2" "''Bio''" 2 "hybrid_init []" "[]"]
    inv demo_graph_search
  show ?thesis by simp
qed

subsection \<open>Hybrid strategy: rank fusion\<close>

lemma search_results_of:
  assumes "graph_inv g"
  shows "search s g q limit = Inr (results_of s g q limit, warm g s)"
  using search_total[OF assms, of s q limit] by (auto simp: results_of_def)

lemma update_new_key: "k \<notin> fst ` set d \<Longrightarrow> AList.update k v d = d @ [(k, v)]"
  by (induction d) auto

lemma run_strategies_distinct:
  assumes "graph_inv g"
  shows "distinct (map name sts) \<Longrightarrow> name ` set sts \<inter> fst ` set acc = {} \<Longrightarrow>
     run_strategies sts g q limit acc =
       Inr (acc @ map (\<lambda>s. (name s, results_of s g q limit)) sts, map (warm g) sts)"
proof (induction sts arbitrary: acc)
  case Nil then show ?case by simp
next
  case (Cons s sts)
  from Cons.prems have new: "name s \<notin> fst ` set acc" by auto
  let ?acc = "acc @ [(name s, results_of s g q limit)]"
  from Cons.prems have "distinct (map name sts)" and "name ` set sts \<inter> fst ` set ?acc = {}"
    by auto
  from Cons.IH[OF this] show ?case
    by (simp add: search_results_of[OF assms] update_new_key[OF new])
qed

lemma fuse_get:
  "dict_get (fst (fuse w rank rs (sbn, nobj))) k 0 =
     dict_get sbn k 0 + (\<Sum>(r, x)\<leftarrow>List.enumerate rank rs. if nid (node x) = k then w / real r else 0)"
proof (induction rs arbitrary: rank sbn nobj)
  case Nil then show ?case by simp
next
  case (Cons x rs)
  show ?case by (simp add: Cons.IH dict_get_update)
qed

lemma fuse_distinct:
  "distinct (map fst sbn) \<Longrightarrow> distinct (map fst (fst (fuse w rank rs (sbn, nobj))))"
  by (induction rs arbitrary: rank sbn nobj) (simp_all add: distinct_update)

lemma fuse_node_ids:
  "\<forall>(k, n) \<in> set nobj. nid n = k \<Longrightarrow> \<forall>(k, n) \<in> set (snd (fuse w rank rs (sbn, nobj))). nid n = k"
proof (induction rs arbitrary: rank sbn nobj)
  case Nil then show ?case by simp
next
  case (Cons x rs)
  have "\<forall>(k, n) \<in> set (AList.update (nid (node x)) (node x) nobj). nid n = k"
    using Cons.prems set_update_subset[of "nid (node x)" "node x" nobj] by blast
  from Cons.IH[OF this] show ?case by simp
qed

lemma fuse_step_pair: "fuse_step ws (nm, rs) st = fuse (dict_get ws nm 1) 1 rs st"
  by (simp add: fuse_step_def)

lemma fuse_fold_get:
  "dict_get (fst (fold (fuse_step ws) sr st)) k 0 =
     dict_get (fst st) k 0 + (\<Sum>(nm, rs)\<leftarrow>sr. contribution (dict_get ws nm 1) rs k)"
proof (induction sr arbitrary: st)
  case Nil then show ?case by simp
next
  case (Cons a sr)
  obtain nm rs where a: "a = (nm, rs)" by (cases a)
  obtain sbn nobj where st: "st = (sbn, nobj)" by (cases st)
  show ?case by (simp add: a st Cons.IH fuse_step_pair fuse_get contribution_def)
qed

lemma fuse_fold_keys:
  "fst ` set (fst (fold (fuse_step ws) sr st)) =
     fst ` set (fst st) \<union> (\<Union>(nm, rs) \<in> set sr. (nid \<circ> node) ` set rs)"
proof (induction sr arbitrary: st)
  case Nil then show ?case by simp
next
  case (Cons a sr)
  obtain nm rs where a: "a = (nm, rs)" by (cases a)
  obtain sbn nobj where st: "st = (sbn, nobj)" by (cases st)
  from fuse_keys[of "dict_get ws nm 1" 1 rs sbn nobj]
  show ?case by (simp add: a st Cons.IH fuse_step_pair Un_assoc)
qed

lemma fuse_fold_distinct:
  "distinct (map fst (fst st)) \<Longrightarrow> distinct (map fst (fst (fold (fuse_step ws) sr st)))"
proof (induction sr arbitrary: st)
  case Nil then show ?case by simp
next
  case (Cons a sr)
  obtain nm rs where a: "a = (nm, rs)" by (cases a)
  obtain sbn nobj where st: "st = (sbn, nobj)" by (cases st)
  from Cons.prems have "distinct (map fst sbn)" by (simp add: st)
  from Cons.IH[OF fuse_distinct[OF this]] show ?case by (simp add: a st fuse_step_pair)
qed

lemma fuse_fold_node_ids:
  "\<forall>(k, n) \<in> set (snd st). nid n = k \<Longrightarrow>
   \<forall>(k, n) \<in> set (snd (fold (fuse_step ws) sr st)). nid n = k"
proof (induction sr arbitrary: st)
  case Nil then show ?case by simp
next
  case (Cons a sr)
  obtain nm rs where a: "a = (nm, rs)" by (cases a)
  obtain sbn nobj where st: "st = (sbn, nobj)" by (cases st)
  from Cons.prems have "\<forall>(k, n) \<in> set nobj. nid n = k" by (simp add: st)
  from Cons.IH[OF fuse_node_ids[OF this]] show ?case by (simp add: a st fuse_step_pair)
qed

lemma fuse_all_step: "fuse_all ws sr = fold (fuse_step ws) sr ([], [])"
proof -
  have "(\<lambda>(nm, results) st. fuse (dict_get ws nm 1) 1 results st) = fuse_step ws"
    by (auto simp: fuse_step_def fun_eq_iff)
  then show ?thesis by (simp add: fuse_all_def)
qed

lemma sort_desc_sorted: "sorted_wrt (\<lambda>a b. f b \<le> f a) (py_take k (sort_desc f xs))"
proof -
  have "sorted (map (\<lambda>r. - f r) (sort_desc f xs))"
    unfolding sort_desc_def by (rule sorted_sort_key)
  then have "sorted_wrt (\<lambda>a b. f b \<le> f a) (sort_desc f xs)"
    by (simp add: sorted_map)
  then show ?thesis by (simp add: py_take_def sorted_wrt_take)
qed

lemma merged_list_pairs:
  "map (\<lambda>m. (nid (node m), score m)) (merged_list ws sr) = fst (fuse_all ws sr) \<and>
   (\<forall>m \<in> set (merged_list ws sr). strategy m = ''hybrid'')"
proof -
  obtain sbn nobj where f: "fuse_all ws sr = (sbn, nobj)" by (cases "fuse_all ws sr")
  from fuse_all_same_keys[of ws sr] f have keys: "fst ` set sbn = fst ` set nobj" by simp
  have ids: "\<forall>(k, n) \<in> set nobj. nid n = k"
    using fuse_fold_node_ids[of "([], [])" ws sr] f by (simp add: fuse_all_step)
  have "(nid (the (map_of nobj k)), sc) = (k, sc)" if "(k, sc) \<in> set sbn" for k sc
  proof -
    from that have "k \<in> fst ` set sbn" by (rule rev_image_eqI) simp
    with keys have "k \<in> fst ` set nobj" by simp
    then obtain n where n: "map_of nobj k = Some n"
      by (metis map_of_eq_None_iff not_Some_eq)
    then have "(k, n) \<in> set nobj" by (rule map_of_SomeD)
    with ids have "nid n = k" by blast
    with n show ?thesis by simp
  qed
  then have "map (\<lambda>m. (nid (node m), score m))
       (map (\<lambda>(k, sc). \<lparr>node = the (map_of nobj k), score = sc, strategy = ''hybrid''\<rparr>) sbn)
     = map (\<lambda>x. x) sbn"
    unfolding map_map by (intro map_cong) auto
  then show ?thesis by (auto simp: merged_list_def f)
qed

lemma fuse_all_score:
  "dict_get (fst (fuse_all (weights h) (map (\<lambda>s. (name s, results_of s g q limit)) (strategies h)))) k 0
     = fused_score h g q limit k"
proof -
  have "dict_get [] k (0::real) = 0" by (simp add: dict_get_def)
  then show ?thesis
    by (simp add: fuse_all_step fuse_fold_get fused_score_def comp_def)
qed

lemma fuse_all_keys:
  "fst ` set (fst (fuse_all ws (map (\<lambda>s. (name s, results_of s g q limit)) sts)))
     = (\<Union>s \<in> set sts. (nid \<circ> node) ` set (results_of s g q limit))"
  by (simp add: fuse_all_step fuse_fold_keys)

lemma fuse_all_distinct: "distinct (map fst (fst (fuse_all ws sr)))"
  unfolding fuse_all_step by (rule fuse_fold_distinct) simp

text \<open>
  C3, as the code has it. On a graph that satisfies the invariant, a Hybrid strategy whose
  constituents have pairwise distinct names searches every constituent with its own limit;
  the result at the 1-based rank \<open>r\<close> of a constituent's list contributes the weight of
  that constituent divided by \<open>r\<close>, the contributions to one node id are added over all
  constituents, each node id of a constituent's list has one merged result, whose score
  is that sum, and the merged results are returned sorted by descending score and
  truncated to the limit.
\<close>

theorem hybrid_rank_fusion:
  assumes "graph_inv g" "distinct (map name (strategies h))"
  shows "\<exists>ms. hybrid_search h g q limit =
             Inr (py_take limit (sort_desc score ms), h\<lparr>strategies := map (warm g) (strategies h)\<rparr>) \<and>
           (\<forall>s \<in> set (strategies h). search s g q limit = Inr (results_of s g q limit, warm g s)) \<and>
           distinct (map (nid \<circ> node) ms) \<and>
           set (map (nid \<circ> node) ms) =
             (\<Union>s \<in> set (strategies h). (nid \<circ> node) ` set (results_of s g q limit)) \<and>
           (\<forall>m \<in> set ms. strategy m = ''hybrid'' \<and> score m = fused_score h g q limit (nid (node m))) \<and>
           sorted_wrt (\<lambda>a b. score b \<le> score a) (py_take limit (sort_desc score ms))"
proof -
  let ?sr = "map (\<lambda>s. (name s, results_of s g q limit)) (strategies h)"
  let ?ms = "merged_list (weights h) ?sr"
  let ?sbn = "fst (fuse_all (weights h) ?sr)"
  have run: "run_strategies (strategies h) g q limit [] = Inr (?sr, map (warm g) (strategies h))"
    using run_strategies_distinct[OF assms(1), of "strategies h" "[]" q limit] assms(2) by simp
  have hs: "hybrid_search h g q limit =
      Inr (py_take limit (sort_desc score ?ms), h\<lparr>strategies := map (warm g) (strategies h)\<rparr>)"
    by (rule hybrid_search_unfold[OF run])
  have each: "\<forall>s \<in> set (strategies h). search s g q limit = Inr (results_of s g q limit, warm g s)"
    by (simp add: search_results_of[OF assms(1)])
  from merged_list_pairs[of "weights h" ?sr]
  have pairs: "map (\<lambda>m. (nid (node m), score m)) ?ms = ?sbn"
    and hyb: "\<forall>m \<in> set ?ms. strategy m = ''hybrid''" by blast+
  have keys: "map (nid \<circ> node) ?ms = map fst ?sbn"
    unfolding pairs[symmetric] by (simp add: comp_def)
  have dist: "distinct (map (nid \<circ> node) ?ms)"
    unfolding keys by (rule fuse_all_distinct)
  have ids: "set (map (nid \<circ> node) ?ms) =
      (\<Union>s \<in> set (strategies h). (nid \<circ> node) ` set (results_of s g q limit))"
    unfolding keys using fuse_all_keys[of "weights h" g q limit "strategies h"] by simp
  have sc: "score m = fused_score h g q limit (nid (node m))" if "m \<in> set ?ms" for m
  proof -
    from that have "(nid (node m), score m) \<in> set (map (\<lambda>m. (nid (node m), score m)) ?ms)"
      by (auto intro: rev_image_eqI)
    then have "(nid (node m), score m) \<in> set ?sbn" by (simp only: pairs)
    then have "map_of ?sbn (nid (node m)) = Some (score m)"
      using fuse_all_distinct[of "weights h" ?sr] by (simp add: map_of_eq_Some_iff)
    then have "dict_get ?sbn (nid (node m)) 0 = score m" by (simp add: dict_get_def)
    then show ?thesis by (simp add: fuse_all_score)
  qed
  have srt: "sorted_wrt (\<lambda>a b. score b \<le> score a) (py_take limit (sort_desc score ?ms))"
    by (rule sort_desc_sorted)
  from hs each dist ids hyb sc srt show ?thesis by blast
qed

lemma demo_ontology_bio:
  "ontology_search demo_graph ''Bio'' 2 = [\<lparr>node = node_b, score = 1, strategy = ''ontology''\<rparr>]"
proof -
  have f: "facets ''Bio'' = [''bio'']"
    by (simp add: facets_def strip_def is_space_def lower_def lower_char_def)
  have m: "match_count [''bio''] node_a = 0" "match_count [''bio''] node_b = 1"
    "match_count [''bio''] node_c = 0"
    by (simp_all add: match_count_def demo_tags lower_def lower_char_def)
  show ?thesis
    by (simp add: ontology_search_def ontology_results_def f m demo_all_nodes List.map_filter_def
        sort_desc_def py_take_def)
qed

lemma demo_hybrid_eq:
  "demo_hybrid = \<lparr>strategies = [GraphTraversalSearch 2, OntologyLensSearch],
                   weights = [(''graph'', 1), (''ontology'', 1)]\<rparr>"
  by (simp add: demo_hybrid_def hybrid_init_def)

lemma twin_hybrid_eq:
  "twin_hybrid = \<lparr>strategies = [OntologyLensSearch, OntologyLensSearch], weights = [(''ontology'', 1)]\<rparr>"
  by (simp add: twin_hybrid_def hybrid_init_def)

lemma demo_hybrid_search:
  "hybrid_search demo_hybrid demo_graph ''Bio'' 2 =
     Inr ([\<lparr>node = node_b, score = 2, strategy = ''hybrid''\<rparr>,
           \<lparr>node = node_a, score = 1 / 2, strategy = ''hybrid''\<rparr>], demo_hybrid)"
  by (simp add: hybrid_search_def demo_hybrid_eq demo_graph_search demo_ontology_bio fuse_all_def
      dict_get_def demo_ids subscript_def sort_desc_def py_take_def)

lemma twin_hybrid_search:
  "hybrid_search twin_hybrid demo_graph ''Bio'' 2 =
     Inr ([\<lparr>node = node_b, score = 1, strategy = ''hybrid''\<rparr>], twin_hybrid)"
  by (simp add: hybrid_search_def twin_hybrid_eq demo_ontology_bio fuse_all_def
      dict_get_def demo_ids subscript_def sort_desc_def py_take_def)

lemma demo_results_of:
  "results_of (GraphTraversalSearch 2) demo_graph ''Bio'' 2 =
     [\<lparr>node = node_b, score = 1, strategy = ''graph''\<rparr>,
      \<lparr>node = node_a, score = 3 / 5, strategy = ''graph''\<rparr>]"
  "results_of OntologyLensSearch demo_graph ''Bio'' 2 = [\<lparr>node = node_b, score = 1, strategy = ''ontology''\<rparr>]"
  by (simp_all add: results_of_def demo_graph_search demo_ontology_bio)

lemma demo_fused_score:
  "fused_score demo_hybrid demo_graph ''Bio'' 2 ''b'' = 2"
  "fused_score demo_hybrid demo_graph ''Bio'' 2 ''a'' = 1 / 2"
  by (simp_all add: fused_score_def demo_hybrid_eq demo_results_of contribution_def enumerate_simps
      dict_get_def demo_ids)

lemma twin_fused_score: "fused_score twin_hybrid demo_graph ''Bio'' 2 ''b'' = 2"
  by (simp add: fused_score_def twin_hybrid_eq demo_results_of contribution_def enumerate_simps
      dict_get_def demo_ids)

theorem hybrid_rank_fusion_witness:
  "graph_inv demo_graph \<and>
   hybrid_search demo_hybrid demo_graph ''Bio'' 2 =
     Inr ([\<lparr>node = node_b, score = 2, strategy = ''hybrid''\<rparr>,
           \<lparr>node = node_a, score = 1 / 2, strategy = ''hybrid''\<rparr>], demo_hybrid) \<and>
   fused_score demo_hybrid demo_graph ''Bio'' 2 ''b'' = 2 \<and>
   fused_score demo_hybrid demo_graph ''Bio'' 2 ''a'' = 1 / 2"
proof -
  have inv: "graph_inv demo_graph"
    unfolding demo_graph_def by (rule built_graph_inv) (rule built_from_sources)
  have d: "distinct (map name (strategies demo_hybrid))"
    by (simp add: demo_hybrid_eq)
  from hybrid_rank_fusion[OF inv d, of "''Bio''" 2] inv demo_hybrid_search demo_fused_score
  show ?thesis by simp
qed

text \<open>
  C3 as stated fails for a Hybrid with two constituents of one name: the dictionary
  \<open>strategy_results\<close> is keyed by name, the list of the second constituent replaces the
  list of the first, and the node \<open>b\<close>, first in both lists, scores 1 and not 1 + 1.
\<close>

theorem hybrid_same_name_counterexample:
  "hybrid_search twin_hybrid demo_graph ''Bio'' 2 =
     Inr ([\<lparr>node = node_b, score = 1, strategy = ''hybrid''\<rparr>], twin_hybrid) \<and>
   fused_score twin_hybrid demo_graph ''Bio'' 2 ''b'' = 2"
  using twin_hybrid_search twin_fused_score by simp

subsection \<open>The evaluation round\<close>

lemma dict_add_present:
  assumes "k \<in> fst ` set d"
  shows "dict_add d k x = Inr (AList.update k (dict_get d k 0 + x) d)"
proof -
  from assms obtain v where "map_of d k = Some v"
    by (metis map_of_eq_None_iff not_Some_eq)
  then show ?thesis by (simp add: dict_add_def subscript_def dict_get_def)
qed

lemma dict_div_present:
  assumes "k \<in> fst ` set d"
  shows "dict_div d k x = Inr (AList.update k (dict_get d k 0 / x) d)"
proof -
  from assms obtain v where "map_of d k = Some v"
    by (metis map_of_eq_None_iff not_Some_eq)
  then show ?thesis by (simp add: dict_div_def subscript_def dict_get_def)
qed

lemma update_present_keys: "k \<in> fst ` set d \<Longrightarrow> map fst (AList.update k v d) = map fst d"
  by (simp add: update_keys)

lemma score_strategies_spec:
  assumes "graph_inv g"
  shows "name ` set sts \<subseteq> fst ` set p \<Longrightarrow>
     \<exists>p'. score_strategies g ex sts p = Inr (p', map (warm g) sts) \<and> map fst p' = map fst p \<and>
       (\<forall>k. dict_get p' k 0 = dict_get p k 0 + (\<Sum>s\<leftarrow>filter (\<lambda>s. name s = k) sts. precision_of s g ex))"
proof (induction sts arbitrary: p)
  case Nil then show ?case by simp
next
  case (Cons s sts)
  let ?x = "precision_of s g ex"
  let ?p1 = "AList.update (name s) (dict_get p (name s) 0 + ?x) p"
  from Cons.prems have k: "name s \<in> fst ` set p" by simp
  have keys1: "map fst ?p1 = map fst p" by (rule update_present_keys[OF k])
  then have "fst ` set ?p1 = fst ` set p" by (metis set_map)
  with Cons.prems have "name ` set sts \<subseteq> fst ` set ?p1" by simp
  from Cons.IH[OF this] obtain p' where
    run: "score_strategies g ex sts ?p1 = Inr (p', map (warm g) sts)"
    and keys: "map fst p' = map fst ?p1"
    and vals: "\<forall>k. dict_get p' k 0 = dict_get ?p1 k 0 + (\<Sum>s\<leftarrow>filter (\<lambda>s. name s = k) sts. precision_of s g ex)"
    by blast
  have "score_strategies g ex (s # sts) p = Inr (p', map (warm g) (s # sts))"
    using run by (simp add: search_results_of[OF assms] dict_add_present[OF k] precision_of_def)
  moreover have "map fst p' = map fst p" using keys keys1 by simp
  moreover have "\<forall>k. dict_get p' k 0 =
      dict_get p k 0 + (\<Sum>s\<leftarrow>filter (\<lambda>s. name s = k) (s # sts). precision_of s g ex)"
    using vals by (simp add: dict_get_update)
  ultimately show ?case by blast
qed

lemma compare_strategies_spec:
  assumes "graph_inv g"
  shows "name ` set sts \<subseteq> fst ` set p \<Longrightarrow>
     \<exists>p'. compare_strategies g ex sc sts p = Inr (p', map (warm g) sts) \<and> map fst p' = map fst p \<and>
       (\<forall>k. dict_get p' k 0 = dict_get p k 0 + (\<Sum>s\<leftarrow>filter (\<lambda>s. name s = k) sts. sc - precision_of s g ex))"
proof (induction sts arbitrary: p)
  case Nil then show ?case by simp
next
  case (Cons s sts)
  let ?x = "sc - precision_of s g ex"
  let ?p1 = "AList.update (name s) (dict_get p (name s) 0 + ?x) p"
  from Cons.prems have k: "name s \<in> fst ` set p" by simp
  have keys1: "map fst ?p1 = map fst p" by (rule update_present_keys[OF k])
  then have "fst ` set ?p1 = fst ` set p" by (metis set_map)
  with Cons.prems have "name ` set sts \<subseteq> fst ` set ?p1" by simp
  from Cons.IH[OF this] obtain p' where
    run: "compare_strategies g ex sc sts ?p1 = Inr (p', map (warm g) sts)"
    and keys: "map fst p' = map fst ?p1"
    and vals: "\<forall>k. dict_get p' k 0 = dict_get ?p1 k 0 + (\<Sum>s\<leftarrow>filter (\<lambda>s. name s = k) sts. sc - precision_of s g ex)"
    by blast
  have "compare_strategies g ex sc (s # sts) p = Inr (p', map (warm g) (s # sts))"
    using run by (simp add: search_results_of[OF assms] dict_add_present[OF k] precision_of_def)
  moreover have "map fst p' = map fst p" using keys keys1 by simp
  moreover have "\<forall>k. dict_get p' k 0 =
      dict_get p k 0 + (\<Sum>s\<leftarrow>filter (\<lambda>s. name s = k) (s # sts). sc - precision_of s g ex)"
    using vals by (simp add: dict_get_update)
  ultimately show ?case by blast
qed

lemma results_of_warm: "results_of (warm g s) g q limit = results_of s g q limit"
  by (simp add: results_of_def search_warm)

lemma precision_of_warm: "precision_of (warm g s) g ex = precision_of s g ex"
  by (simp add: precision_of_def results_of_warm)

lemma hybrid_search_warm:
  "hybrid_search (h\<lparr>strategies := map (warm g) (strategies h)\<rparr>) g q limit =
   bind (hybrid_search h g q limit) (\<lambda>(rs, h'). Inr (rs, h'))"
  by (simp add: hybrid_search_def run_strategies_warm bind_def split: sum.splits prod.splits)

lemma hybrid_results_warm:
  "hybrid_results (h\<lparr>strategies := map (warm g) (strategies h)\<rparr>) g q limit = hybrid_results h g q limit"
  by (simp add: hybrid_results_def hybrid_search_warm bind_def split: sum.splits prod.splits)

lemma hybrid_precision_warm:
  "hybrid_precision (h\<lparr>strategies := map (warm g) (strategies h)\<rparr>) g ex = hybrid_precision h g ex"
  by (simp add: hybrid_precision_def hybrid_results_warm)

lemma total_precision_warm: "total_precision (map (warm g) sts) g exs k = total_precision sts g exs k"
  by (simp add: total_precision_def filter_map comp_def precision_of_warm)

lemma total_advantage_warm:
  "total_advantage (h\<lparr>strategies := map (warm g) (strategies h)\<rparr>) g exs k = total_advantage h g exs k"
  by (simp add: total_advantage_def filter_map comp_def precision_of_warm hybrid_precision_warm)

lemma warm_comp: "warm g \<circ> warm g = warm g"
  by (rule ext) simp

lemma warm_list_again: "map (warm g) (map (warm g) sts) = map (warm g) sts"
  by simp

lemma name_warm_list: "map name (map (warm g) sts) = map name sts"
  by simp

lemma hybrid_search_results:
  assumes "graph_inv g"
  shows "hybrid_search h g q limit =
     Inr (hybrid_results h g q limit, h\<lparr>strategies := map (warm g) (strategies h)\<rparr>)"
  using hybrid_search_total[OF assms, of h q limit] by (auto simp: hybrid_results_def)

lemma advantage_step_warm:
  "(\<Sum>s\<leftarrow>filter (\<lambda>s. name s = k) (map (warm g) sts). c - precision_of s g ex) =
   (\<Sum>s\<leftarrow>filter (\<lambda>s. name s = k) sts. c - precision_of s g ex)"
  by (simp add: filter_map comp_def precision_of_warm)

lemma evaluate_spec:
  assumes "graph_inv g"
  shows "name ` set (strategies h) \<subseteq> fst ` set p \<Longrightarrow> name ` set (strategies h) \<subseteq> fst ` set hp \<Longrightarrow>
     \<exists>h' p' hp'. evaluate g exs (h, p, hp) = Inr (h', p', hp') \<and> weights h' = weights h \<and>
       map (warm g) (strategies h') = map (warm g) (strategies h) \<and>
       map fst p' = map fst p \<and> map fst hp' = map fst hp \<and>
       (\<forall>k. dict_get p' k 0 = dict_get p k 0 + total_precision (strategies h) g exs k) \<and>
       (\<forall>k. dict_get hp' k 0 = dict_get hp k 0 + total_advantage h g exs k)"
proof (induction exs arbitrary: h p hp)
  case Nil
  then show ?case by (simp add: total_precision_def total_advantage_def)
next
  case (Cons ex exs)
  let ?sts = "strategies h"
  let ?w = "map (warm g) ?sts"
  let ?h1 = "h\<lparr>strategies := ?w\<rparr>"
  let ?sc = "hybrid_precision h g ex"
  from score_strategies_spec[OF assms Cons.prems(1), of ex] obtain p1 where
    s1: "score_strategies g ex ?sts p = Inr (p1, ?w)" and k1: "map fst p1 = map fst p"
    and v1: "\<forall>k. dict_get p1 k 0 = dict_get p k 0 + (\<Sum>s\<leftarrow>filter (\<lambda>s. name s = k) ?sts. precision_of s g ex)"
    by blast
  have hs: "hybrid_search ?h1 g (query ex) 5 = Inr (hybrid_results h g (query ex) 5, ?h1)"
    using hybrid_search_results[OF assms, of ?h1 "query ex" 5]
    by (simp add: hybrid_results_warm)
  have names_w: "name ` set ?w \<subseteq> fst ` set hp"
    using Cons.prems(2) by (simp add: image_image)
  from compare_strategies_spec[OF assms names_w, of ex ?sc] obtain hp1 where
    s2: "compare_strategies g ex ?sc ?w hp = Inr (hp1, map (warm g) ?w)" and k2: "map fst hp1 = map fst hp"
    and v2: "\<forall>k. dict_get hp1 k 0 = dict_get hp k 0 + (\<Sum>s\<leftarrow>filter (\<lambda>s. name s = k) ?w. ?sc - precision_of s g ex)"
    by blast
  have step: "evaluate g (ex # exs) (h, p, hp) = evaluate g exs (?h1, p1, hp1)"
    using s1 hs s2 by (simp add: hybrid_precision_def warm_comp)
  have n1: "name ` set (strategies ?h1) \<subseteq> fst ` set p1"
  proof -
    have "fst ` set p1 = fst ` set p" using k1 by (metis set_map)
    with Cons.prems(1) show ?thesis by (simp add: image_image)
  qed
  have n2: "name ` set (strategies ?h1) \<subseteq> fst ` set hp1"
  proof -
    have "fst ` set hp1 = fst ` set hp" using k2 by (metis set_map)
    with Cons.prems(2) show ?thesis by (simp add: image_image)
  qed
  from Cons.IH[OF n1 n2] obtain h' p' hp' where
    ev: "evaluate g exs (?h1, p1, hp1) = Inr (h', p', hp')" and wh: "weights h' = weights ?h1"
    and st: "map (warm g) (strategies h') = map (warm g) (strategies ?h1)"
    and kp: "map fst p' = map fst p1" and kh: "map fst hp' = map fst hp1"
    and vp: "\<forall>k. dict_get p' k 0 = dict_get p1 k 0 + total_precision (strategies ?h1) g exs k"
    and vh: "\<forall>k. dict_get hp' k 0 = dict_get hp1 k 0 + total_advantage ?h1 g exs k"
    by blast
  have tp: "dict_get p' k 0 = dict_get p k 0 + total_precision ?sts g (ex # exs) k" for k
  proof -
    have "total_precision (strategies ?h1) g exs k = total_precision ?sts g exs k"
      by (simp add: total_precision_warm)
    with vp v1 show ?thesis by (simp add: total_precision_def)
  qed
  have ta: "dict_get hp' k 0 = dict_get hp k 0 + total_advantage h g (ex # exs) k" for k
  proof -
    have "total_advantage ?h1 g exs k = total_advantage h g exs k"
      by (rule total_advantage_warm)
    with vh v2 advantage_step_warm[where k=k and g=g and sts="?sts" and c="?sc" and ex=ex] show ?thesis
      by (simp add: total_advantage_def)
  qed
  from step ev wh st kp kh k1 k2 tp ta show ?case by simp
qed

lemma zero_scores_distinct_aux:
  "distinct (map fst d) \<Longrightarrow> distinct (map fst (fold (\<lambda>s d. AList.update (name s) (0::real) d) sts d))"
  by (induction sts arbitrary: d) (simp_all add: distinct_update)

lemma zero_scores_distinct: "distinct (map fst (zero_scores sts))"
  unfolding zero_scores_def by (rule zero_scores_distinct_aux) simp

lemma zero_scores_keys: "fst ` set (zero_scores sts) = name ` set sts"
  using init_keys_aux[of 0 sts "[]"] by (simp add: zero_scores_def)

lemma zero_scores_get: "dict_get (zero_scores sts) k 0 = 0"
proof (cases "map_of (zero_scores sts) k")
  case None then show ?thesis by (simp add: dict_get_def)
next
  case (Some v)
  then have "(k, v) \<in> set (zero_scores sts)" by (rule map_of_SomeD)
  with init_values_aux[of "[]" 0 sts] have "v = 0" by (auto simp: zero_scores_def)
  with Some show ?thesis by (simp add: dict_get_def)
qed

lemma update_distinct_map:
  "distinct (map fst d) \<Longrightarrow> k \<in> fst ` set d \<Longrightarrow>
   AList.update k w d = map (\<lambda>(k', v). (k', if k' = k then w else v)) d"
proof (induction d)
  case Nil then show ?case by simp
next
  case (Cons a d)
  obtain k' v where a: "a = (k', v)" by (cases a)
  show ?case
  proof (cases "k' = k")
    case True
    with Cons.prems(1) have "k \<notin> fst ` set d" by (simp add: a)
    then have "map (\<lambda>(k', v). (k', if k' = k then w else v)) d = d"
      by (induction d) auto
    with True show ?thesis by (simp add: a)
  next
    case False
    with Cons show ?thesis by (auto simp: a)
  qed
qed

lemma dict_div_map:
  assumes "distinct (map fst d)" "k \<in> fst ` set d"
  shows "dict_div d k x = Inr (map (\<lambda>(k', v). (k', if k' = k then v / x else v)) d)"
proof -
  have "map (\<lambda>(k', v). (k', if k' = k then dict_get d k 0 / x else v)) d =
        map (\<lambda>(k', v). (k', if k' = k then v / x else v)) d"
  proof (intro map_cong refl)
    fix a assume a: "a \<in> set d"
    obtain k' v where kv: "a = (k', v)" by (cases a)
    from a kv assms(1) have "map_of d k' = Some v" by (simp add: map_of_eq_Some_iff)
    then have "dict_get d k' 0 = v" by (simp add: dict_get_def)
    then show "(case a of (k', v) \<Rightarrow> (k', if k' = k then dict_get d k 0 / x else v)) =
               (case a of (k', v) \<Rightarrow> (k', if k' = k then v / x else v))"
      by (auto simp: kv)
  qed
  with update_distinct_map[OF assms, of "dict_get d k 0 / x"] dict_div_present[OF assms(2), of x]
  show ?thesis by simp
qed

lemma normalize_spec:
  "distinct (map fst p) \<Longrightarrow> distinct (map fst hp) \<Longrightarrow> distinct nms \<Longrightarrow>
   set nms \<subseteq> fst ` set p \<Longrightarrow> set nms \<subseteq> fst ` set hp \<Longrightarrow>
   normalize qc nms (p, hp) =
     Inr (map (\<lambda>(k, v). (k, if k \<in> set nms then v / qc else v)) p,
          map (\<lambda>(k, v). (k, if k \<in> set nms then v / qc else v)) hp)"
proof (induction nms arbitrary: p hp)
  case Nil
  then show ?case by simp
next
  case (Cons nm nms)
  let ?f = "\<lambda>(k', v). (k', if k' = nm then v / qc else v)"
  from Cons.prems have inp: "nm \<in> fst ` set p" and inh: "nm \<in> fst ` set hp" by simp_all
  have d1: "dict_div p nm qc = Inr (map ?f p)" by (rule dict_div_map[OF Cons.prems(1) inp])
  have d2: "dict_div hp nm qc = Inr (map ?f hp)" by (rule dict_div_map[OF Cons.prems(2) inh])
  have kp: "map fst (map ?f p) = map fst p" by (induction p) auto
  have kh: "map fst (map ?f hp) = map fst hp" by (induction hp) auto
  have sp: "fst ` set (map ?f p) = fst ` set p" using kp by (metis set_map)
  have sh: "fst ` set (map ?f hp) = fst ` set hp" using kh by (metis set_map)
  from Cons.prems have nmn: "nm \<notin> set nms" and dn: "distinct nms" by simp_all
  have ih: "normalize qc nms (map ?f p, map ?f hp) =
     Inr (map (\<lambda>(k, v). (k, if k \<in> set nms then v / qc else v)) (map ?f p),
          map (\<lambda>(k, v). (k, if k \<in> set nms then v / qc else v)) (map ?f hp))"
  proof (rule Cons.IH)
    show "distinct (map fst (map ?f p))" unfolding kp by (rule Cons.prems(1))
    show "distinct (map fst (map ?f hp))" unfolding kh by (rule Cons.prems(2))
    show "distinct nms" by (rule dn)
    show "set nms \<subseteq> fst ` set (map ?f p)" unfolding sp using Cons.prems(4) by simp
    show "set nms \<subseteq> fst ` set (map ?f hp)" unfolding sh using Cons.prems(5) by simp
  qed
  have comp: "map (\<lambda>(k, v). (k, if k \<in> set nms then v / qc else v)) (map ?f d) =
      map (\<lambda>(k, v). (k, if k \<in> set (nm # nms) then v / qc else v)) d" for d :: "(string \<times> real) list"
    using nmn by (induction d) auto
  have "normalize qc (nm # nms) (p, hp) = normalize qc nms (map ?f p, map ?f hp)"
    by (simp add: d1 d2)
  then show ?case by (simp only: ih comp)
qed

lemma name_not_hybrid: "name s \<noteq> ''hybrid''"
  by (cases s) simp_all

lemma precision_of_nonneg: "0 \<le> precision_of s g ex"
  using precision_bounds[of "results_of s g (query ex) 5" "relevant_ids ex" 5]
  by (simp add: precision_of_def)

lemma total_precision_nonneg: "0 \<le> total_precision sts g exs k"
  unfolding total_precision_def
  by (intro sum_list_nonneg) (auto intro!: sum_list_nonneg simp: precision_of_nonneg)

lemma divide_all:
  "map (\<lambda>(k, v). (k, if k \<in> set (map fst d) then v / qc else v)) d = map (\<lambda>(k, v). (k, v / qc)) d"
proof (intro map_cong refl)
  fix x assume "x \<in> set d"
  then have "fst x \<in> fst ` set d" by (rule imageI)
  then show "(case x of (k, v) \<Rightarrow> (k, if k \<in> set (map fst d) then v / qc else v)) =
             (case x of (k, v) \<Rightarrow> (k, v / qc))"
    by (cases x) simp
qed

lemma divide_all_other:
  assumes "map fst d' = map fst d"
  shows "map (\<lambda>(k, v). (k, if k \<in> set (map fst d) then v / qc else v)) d' = map (\<lambda>(k, v). (k, v / qc)) d'"
  unfolding assms[symmetric] by (rule divide_all)

text \<open>
  C6. On a graph that satisfies the invariant \<open>run_round\<close> returns. The loop over the
  examples accumulates, under each constituent name, the precision at 5 of the
  constituents of that name and the differences between the Hybrid's precision and theirs;
  \<open>run_round\<close> divides every accumulated value of both dictionaries by the number of
  examples, or by 1 when there is no example, passes the divided differences to
  \<open>update_weights\<close> with the rate 0.1, and returns the divided precisions. The keys of
  the returned map are the constituent names, each once; the Hybrid's own precision has no
  key; every returned value is at least 0.
\<close>

theorem run_round_spec:
  assumes "graph_inv (graph l)"
  shows "\<exists>h' p hp.
     evaluate (graph l) (evaluation_set l)
       (hybrid l, zero_scores (strategies (hybrid l)), zero_scores (strategies (hybrid l))) = Inr (h', p, hp) \<and>
     run_round l =
       Inr (map (\<lambda>(k, v). (k, v / real (query_count l))) p,
            l\<lparr>hybrid := update_weights h' (map (\<lambda>(k, v). (k, v / real (query_count l))) hp) 0.1\<rparr>) \<and>
     weights h' = weights (hybrid l) \<and>
     query_count l = (if evaluation_set l = [] then 1 else length (evaluation_set l)) \<and>
     (\<forall>k. dict_get p k 0 = total_precision (strategies (hybrid l)) (graph l) (evaluation_set l) k) \<and>
     (\<forall>k. dict_get hp k 0 = total_advantage (hybrid l) (graph l) (evaluation_set l) k) \<and>
     distinct (map fst p) \<and> map fst hp = map fst p \<and>
     set (map fst p) = name ` set (strategies (hybrid l)) \<and> ''hybrid'' \<notin> set (map fst p) \<and>
     (\<forall>(k, v) \<in> set (map (\<lambda>(k, v). (k, v / real (query_count l))) p). 0 \<le> v)"
proof -
  let ?g = "graph l" and ?sts = "strategies (hybrid l)" and ?exs = "evaluation_set l"
  let ?z = "zero_scores ?sts"
  let ?qc = "real (query_count l)"
  have zk: "name ` set ?sts \<subseteq> fst ` set ?z" by (simp add: zero_scores_keys)
  from evaluate_spec[OF assms zk zk, of ?exs] obtain h' p hp where
    ev: "evaluate ?g ?exs (hybrid l, ?z, ?z) = Inr (h', p, hp)" and wh: "weights h' = weights (hybrid l)"
    and kp: "map fst p = map fst ?z" and kh: "map fst hp = map fst ?z"
    and vp: "\<forall>k. dict_get p k 0 = dict_get ?z k 0 + total_precision ?sts ?g ?exs k"
    and vh: "\<forall>k. dict_get hp k 0 = dict_get ?z k 0 + total_advantage (hybrid l) ?g ?exs k"
    by blast
  have dp: "distinct (map fst p)" unfolding kp by (rule zero_scores_distinct)
  have dh: "distinct (map fst hp)" unfolding kh by (rule zero_scores_distinct)
  have khp: "map fst hp = map fst p" by (simp add: kp kh)
  have sp: "set (map fst p) = name ` set ?sts"
    unfolding kp using zero_scores_keys[of ?sts] by simp
  have nh: "''hybrid'' \<notin> set (map fst p)"
    unfolding sp
  proof
    assume "''hybrid'' \<in> name ` set ?sts"
    then obtain s where "name s = ''hybrid''" by auto
    with name_not_hybrid[of s] show False by simp
  qed
  have norm: "normalize ?qc (map fst p) (p, hp) =
      Inr (map (\<lambda>(k, v). (k, v / ?qc)) p, map (\<lambda>(k, v). (k, v / ?qc)) hp)"
  proof -
    have "set (map fst p) \<subseteq> fst ` set p" by simp
    moreover have "set (map fst p) \<subseteq> fst ` set hp" using khp by (metis set_map subset_refl)
    ultimately have "normalize ?qc (map fst p) (p, hp) =
        Inr (map (\<lambda>(k, v). (k, if k \<in> set (map fst p) then v / ?qc else v)) p,
             map (\<lambda>(k, v). (k, if k \<in> set (map fst p) then v / ?qc else v)) hp)"
      using dp dh by (intro normalize_spec) simp_all
    then show ?thesis by (simp only: divide_all divide_all_other[OF khp])
  qed
  have rr: "run_round l =
      Inr (map (\<lambda>(k, v). (k, v / ?qc)) p,
           l\<lparr>hybrid := update_weights h' (map (\<lambda>(k, v). (k, v / ?qc)) hp) 0.1\<rparr>)"
    by (simp add: run_round_def ev norm)
  have qc: "query_count l = (if ?exs = [] then 1 else length ?exs)"
    by (cases ?exs) (simp_all add: query_count_def)
  have tp: "\<forall>k. dict_get p k 0 = total_precision ?sts ?g ?exs k"
    using vp by (simp add: zero_scores_get)
  have ta: "\<forall>k. dict_get hp k 0 = total_advantage (hybrid l) ?g ?exs k"
    using vh by (simp add: zero_scores_get)
  have nn: "\<forall>(k, v) \<in> set (map (\<lambda>(k, v). (k, v / ?qc)) p). 0 \<le> v"
  proof -
    have "0 \<le> v" if "(k, v) \<in> set p" for k v
    proof -
      from that dp have "map_of p k = Some v" by (simp add: map_of_eq_Some_iff)
      then have "dict_get p k 0 = v" by (simp add: dict_get_def)
      with tp total_precision_nonneg[of ?sts ?g ?exs k] show ?thesis by simp
    qed
    then show ?thesis by auto
  qed
  from ev rr wh qc tp ta dp khp sp nh nn show ?thesis by blast
qed

lemma demo_league_eq:
  "demo_league = \<lparr>graph = demo_graph,
      evaluation_set = [\<lparr>query = ''Bio'', relevant_ids = [''b'']\<rparr>], hybrid = demo_hybrid\<rparr>"
  by (simp add: demo_league_def league_init_def demo_hybrid_def)

lemma demo_graph_search5:
  "graph_search 2 demo_graph ''Bio'' 5 =
     Inr [\<lparr>node = node_b, score = 1, strategy = ''graph''\<rparr>,
          \<lparr>node = node_a, score = 3 / 5, strategy = ''graph''\<rparr>,
          \<lparr>node = node_c, score = 3 / 5, strategy = ''graph''\<rparr>]"
  by (simp add: graph_search_def demo_combined demo_lookup sort_desc_def py_take_def)

lemma demo_ontology_bio5:
  "ontology_search demo_graph ''Bio'' 5 = [\<lparr>node = node_b, score = 1, strategy = ''ontology''\<rparr>]"
proof -
  have f: "facets ''Bio'' = [''bio'']"
    by (simp add: facets_def strip_def is_space_def lower_def lower_char_def)
  have m: "match_count [''bio''] node_a = 0" "match_count [''bio''] node_b = 1"
    "match_count [''bio''] node_c = 0"
    by (simp_all add: match_count_def demo_tags lower_def lower_char_def)
  show ?thesis
    by (simp add: ontology_search_def ontology_results_def f m demo_all_nodes List.map_filter_def
        sort_desc_def py_take_def)
qed

lemma demo_precisions:
  "precision_at_k [\<lparr>node = node_b, score = 1, strategy = ''graph''\<rparr>,
          \<lparr>node = node_a, score = 3 / 5, strategy = ''graph''\<rparr>,
          \<lparr>node = node_c, score = 3 / 5, strategy = ''graph''\<rparr>] [''b''] 5 = 1 / 3"
  "precision_at_k [\<lparr>node = node_b, score = 1, strategy = ''ontology''\<rparr>] [''b''] 5 = 1"
  "precision_at_k [\<lparr>node = node_b, score = 2, strategy = ''hybrid''\<rparr>,
           \<lparr>node = node_a, score = 1 / 2, strategy = ''hybrid''\<rparr>,
           \<lparr>node = node_c, score = 1 / 3, strategy = ''hybrid''\<rparr>] [''b''] 5 = 1 / 3"
  by (simp_all add: precision_at_k_def py_take_def demo_ids)

lemma demo_hybrid_search5:
  "hybrid_search demo_hybrid demo_graph ''Bio'' 5 =
     Inr ([\<lparr>node = node_b, score = 2, strategy = ''hybrid''\<rparr>,
           \<lparr>node = node_a, score = 1 / 2, strategy = ''hybrid''\<rparr>,
           \<lparr>node = node_c, score = 1 / 3, strategy = ''hybrid''\<rparr>], demo_hybrid)"
  by (simp add: hybrid_search_def demo_hybrid_eq demo_graph_search5 demo_ontology_bio5 fuse_all_def
      dict_get_def demo_ids subscript_def sort_desc_def py_take_def)

lemma demo_score_strategies:
  "score_strategies demo_graph \<lparr>query = ''Bio'', relevant_ids = [''b'']\<rparr>
     [GraphTraversalSearch 2, OntologyLensSearch] [(''graph'', 0), (''ontology'', 0)] =
   Inr ([(''graph'', 1 / 3), (''ontology'', 1)], [GraphTraversalSearch 2, OntologyLensSearch])"
  by (simp add: demo_graph_search5 demo_ontology_bio5 demo_precisions dict_add_def subscript_def)

lemma demo_compare_strategies:
  "compare_strategies demo_graph \<lparr>query = ''Bio'', relevant_ids = [''b'']\<rparr> (1 / 3)
     [GraphTraversalSearch 2, OntologyLensSearch] [(''graph'', 0), (''ontology'', 0)] =
   Inr ([(''graph'', 0), (''ontology'', - 2 / 3)], [GraphTraversalSearch 2, OntologyLensSearch])"
  by (simp add: demo_graph_search5 demo_ontology_bio5 demo_precisions dict_add_def subscript_def)

lemma demo_hybrid_fields:
  "strategies demo_hybrid = [GraphTraversalSearch 2, OntologyLensSearch]"
  "weights demo_hybrid = [(''graph'', 1), (''ontology'', 1)]"
  "demo_hybrid\<lparr>strategies := [GraphTraversalSearch 2, OntologyLensSearch]\<rparr> = demo_hybrid"
  by (simp_all add: demo_hybrid_eq)

lemma demo_evaluate:
  "evaluate demo_graph [\<lparr>query = ''Bio'', relevant_ids = [''b'']\<rparr>]
     (demo_hybrid, [(''graph'', 0), (''ontology'', 0)], [(''graph'', 0), (''ontology'', 0)]) =
   Inr (demo_hybrid, [(''graph'', 1 / 3), (''ontology'', 1)], [(''graph'', 0), (''ontology'', - 2 / 3)])"
  by (simp add: demo_hybrid_fields demo_score_strategies demo_hybrid_search5 demo_precisions
      demo_compare_strategies
      del: score_strategies.simps compare_strategies.simps)

lemma demo_run_round:
  "run_round demo_league =
     Inr ([(''graph'', 1 / 3), (''ontology'', 1)],
          demo_league\<lparr>hybrid := demo_hybrid\<lparr>weights := [(''graph'', 1), (''ontology'', 14 / 15)]\<rparr>\<rparr>)"
  by (simp add: run_round_def demo_league_eq demo_hybrid_fields zero_scores_def demo_evaluate
      query_count_def dict_div_def subscript_def update_weights_def update_weight_def dict_get_def
      del: evaluate.simps)

theorem run_round_spec_witness:
  "graph_inv (graph demo_league) \<and>
   run_round demo_league =
     Inr ([(''graph'', 1 / 3), (''ontology'', 1)],
          demo_league\<lparr>hybrid := demo_hybrid\<lparr>weights := [(''graph'', 1), (''ontology'', 14 / 15)]\<rparr>\<rparr>)"
proof -
  have inv: "graph_inv (graph demo_league)"
    unfolding demo_league_eq demo_graph_def
    by (simp, rule built_graph_inv) (rule built_from_sources)
  from run_round_spec[OF inv] inv demo_run_round show ?thesis by simp
qed

end
